theory Spec2Isabelle
  imports Main "HOL-Library.Sublist"
begin

section \<open>GetIdracLcLogsREDFISH.py: retrieval of the iDRAC Lifecycle Controller log\<close>

text \<open>
  The script reads its command line into the global \<open>args\<close>, resolves a handful of
  global variables in \<open>__main__\<close>, probes the controller and then runs one retrieval
  function. Every retrieval function fetches the log collection once without a page
  parameter and then walks \<open>$skip=50, 100, ...\<close>.

  The embedding follows the script function by function. Python values decoded from
  the JSON bodies are a datatype, Python exceptions are values, the globals and the
  files written are explicit state, and the HTTP transport is a function from the
  request issued to the response received: a request always returns, its body decodes
  as JSON, and a request repeated within a run receives the same answer (within one
  walk no request is repeated). Console output (\<open>pprint\<close>, \<open>print\<close>, \<open>logging\<close>) is
  kept only as far as it is the way a function ends; \<open>time.sleep\<close> is left out.
\<close>

subsection \<open>Python values and the operations the script applies to them\<close>

text \<open>
  The value of \<open>response.json()\<close>. Strings are byte strings here; \<open>str.lower\<close> is
  modelled on the ASCII letters. JSON numbers with a fraction are not represented: the
  script never computes with a number of a body.
\<close>

datatype json =
    JNull
  | JBool bool
  | JNum int
  | JStr string
  | JArr "json list"
  | JObj "(string \<times> json) list"

datatype py_error =
    KeyError
  | IndexError
  | TypeError
  | AttributeError
  | NameError
  | ValueError
  | FileNotFoundError

definition lower_char :: "char \<Rightarrow> char" where
  "lower_char c =
     (case map_of (zip ''ABCDEFGHIJKLMNOPQRSTUVWXYZ'' ''abcdefghijklmnopqrstuvwxyz'') c of
        None \<Rightarrow> c
      | Some l \<Rightarrow> l)"

definition lower :: "string \<Rightarrow> string" where
  "lower s = map lower_char s"

text \<open>\<open>p in s\<close> for two strings: \<open>p\<close> occurs in \<open>s\<close> as a contiguous block.\<close>

fun is_substring :: "string \<Rightarrow> string \<Rightarrow> bool" where
  "is_substring p [] = (p = [])"
| "is_substring p (c # s) = (prefix p (c # s) \<or> is_substring p s)"

text \<open>\<open>s.split(d)\<close> for a one-character separator: never empty.\<close>

fun split_on :: "char \<Rightarrow> string \<Rightarrow> string list" where
  "split_on d [] = [[]]"
| "split_on d (c # s) =
     (if c = d then [] # split_on d s
      else (case split_on d s of [] \<Rightarrow> [[c]] | h # t \<Rightarrow> (c # h) # t))"

text \<open>\<open>s.replace(d, "")\<close> for a one-character \<open>d\<close>.\<close>

definition remove_char :: "char \<Rightarrow> string \<Rightarrow> string" where
  "remove_char d s = filter (\<lambda>c. c \<noteq> d) s"

text \<open>\<open>x[k]\<close> with a string key.\<close>

fun subscript :: "json \<Rightarrow> string \<Rightarrow> py_error + json" where
  "subscript (JObj kvs) k = (case map_of kvs k of None \<Rightarrow> Inl KeyError | Some v \<Rightarrow> Inr v)"
| "subscript _ k = Inl TypeError"

text \<open>\<open>x[0]\<close>.\<close>

fun subscript0 :: "json \<Rightarrow> py_error + json" where
  "subscript0 (JArr []) = Inl IndexError"
| "subscript0 (JArr (v # vs)) = Inr v"
| "subscript0 (JStr []) = Inl IndexError"
| "subscript0 (JStr (c # s)) = Inr (JStr [c])"
| "subscript0 (JObj kvs) = Inl KeyError"
| "subscript0 _ = Inl TypeError"

text \<open>\<open>lit in x\<close> with a string literal on the left.\<close>

fun py_in :: "string \<Rightarrow> json \<Rightarrow> py_error + bool" where
  "py_in lit (JStr s) = Inr (is_substring lit s)"
| "py_in lit (JArr vs) = Inr (JStr lit \<in> set vs)"
| "py_in lit (JObj kvs) = Inr (lit \<in> set (map fst kvs))"
| "py_in lit _ = Inl TypeError"

text \<open>The values \<open>for i in x\<close> runs through.\<close>

fun py_iter :: "json \<Rightarrow> py_error + json list" where
  "py_iter (JArr vs) = Inr vs"
| "py_iter (JObj kvs) = Inr (map (\<lambda>kv. JStr (fst kv)) kvs)"
| "py_iter (JStr s) = Inr (map (\<lambda>c. JStr [c]) s)"
| "py_iter _ = Inl TypeError"

fun py_items :: "json \<Rightarrow> py_error + (string \<times> json) list" where
  "py_items (JObj kvs) = Inr kvs"
| "py_items _ = Inl AttributeError"

fun py_lower :: "json \<Rightarrow> py_error + string" where
  "py_lower (JStr s) = Inr (lower s)"
| "py_lower _ = Inl AttributeError"

subsubsection \<open>Printing values: \<open>str\<close>, \<open>repr\<close> and \<open>%s\<close>\<close>

text \<open>The digit for a value below 16.\<close>

definition digit_char :: "nat \<Rightarrow> char" where
  "digit_char n = ''0123456789abcdef'' ! n"

text \<open>The decimal digits of a number, as \<open>"%s" % n\<close> prints them.\<close>

fun show_nat :: "nat \<Rightarrow> string" where
  "show_nat n = (if n < 10 then [digit_char n] else show_nat (n div 10) @ [digit_char (n mod 10)])"

declare show_nat.simps [simp del]

definition show_int :: "int \<Rightarrow> string" where
  "show_int i = (if i < 0 then CHR ''-'' # show_nat (nat (- i)) else show_nat (nat i))"

definition repr_char :: "char \<Rightarrow> char \<Rightarrow> string" where
  "repr_char q c =
     (let n = (of_char c :: nat) in
      if c = CHR 0x5C then [CHR 0x5C, CHR 0x5C]
      else if c = q then [CHR 0x5C, q]
      else if n = 10 then [CHR 0x5C, CHR ''n'']
      else if n = 13 then [CHR 0x5C, CHR ''r'']
      else if n = 9 then [CHR 0x5C, CHR ''t'']
      else if n < 32 \<or> n = 127 then [CHR 0x5C, CHR ''x'', digit_char (n div 16), digit_char (n mod 16)]
      else [c])"

definition repr_str :: "string \<Rightarrow> string" where
  "repr_str s =
     (let q = (if CHR 0x27 \<in> set s \<and> CHR 0x22 \<notin> set s then CHR 0x22 else CHR 0x27)
      in q # concat (map (repr_char q) s) @ [q])"

fun join :: "string \<Rightarrow> string list \<Rightarrow> string" where
  "join sep [] = []"
| "join sep [x] = x"
| "join sep (x # y # ys) = x @ sep @ join sep (y # ys)"

primrec py_repr :: "json \<Rightarrow> string" where
  "py_repr JNull = ''None''"
| "py_repr (JBool b) = (if b then ''True'' else ''False'')"
| "py_repr (JNum i) = show_int i"
| "py_repr (JStr s) = repr_str s"
| "py_repr (JArr vs) = ''['' @ join '', '' (map py_repr vs) @ '']''"
| "py_repr (JObj kvs) =
     ''{'' @ join '', '' (map (\<lambda>kv. repr_str (fst kv) @ '': '' @ snd kv)
                               (map (map_prod id py_repr) kvs)) @ ''}''"

text \<open>\<open>str(v)\<close>, which is also what \<open>"%s" % v\<close> prints.\<close>

definition py_str :: "json \<Rightarrow> string" where
  "py_str v = (case v of JStr s \<Rightarrow> s | _ \<Rightarrow> py_repr v)"

text \<open>\<open>"%s" % v\<close> for a global that holds a string or \<open>None\<close>.\<close>

definition str_opt :: "string option \<Rightarrow> string" where
  "str_opt v = (case v of None \<Rightarrow> ''None'' | Some s \<Rightarrow> s)"

subsubsection \<open>\<open>int(s)\<close> on a string\<close>

definition is_digit :: "char \<Rightarrow> bool" where
  "is_digit c = (let n = (of_char c :: nat) in 48 \<le> n \<and> n \<le> 57)"

definition digit_val :: "char \<Rightarrow> nat" where
  "digit_val c = of_char c - 48"

definition is_space :: "char \<Rightarrow> bool" where
  "is_space c = (let n = (of_char c :: nat) in (9 \<le> n \<and> n \<le> 13) \<or> (28 \<le> n \<and> n \<le> 32))"

definition strip :: "string \<Rightarrow> string" where
  "strip s = rev (dropWhile is_space (rev (dropWhile is_space s)))"

text \<open>The digits after the first one; a single underscore may stand between two digits.\<close>

fun more_digits :: "nat \<Rightarrow> string \<Rightarrow> nat option" where
  "more_digits acc [] = Some acc"
| "more_digits acc [c] = (if is_digit c then Some (10 * acc + digit_val c) else None)"
| "more_digits acc (c # d # s) =
     (if is_digit c then more_digits (10 * acc + digit_val c) (d # s)
      else if c = CHR ''_'' \<and> is_digit d then more_digits (10 * acc + digit_val d) s
      else None)"

definition unsigned :: "string \<Rightarrow> nat option" where
  "unsigned s = (case s of [] \<Rightarrow> None
                 | c # r \<Rightarrow> if is_digit c then more_digits (digit_val c) r else None)"

definition py_int :: "string \<Rightarrow> py_error + int" where
  "py_int s =
     (case strip s of
        [] \<Rightarrow> Inl ValueError
      | c # r \<Rightarrow>
          (case (if c = CHR ''-'' then map_option (\<lambda>n. - int n) (unsigned r)
                 else if c = CHR ''+'' then map_option int (unsigned r)
                 else map_option int (unsigned (c # r))) of
             None \<Rightarrow> Inl ValueError
           | Some i \<Rightarrow> Inr i))"

subsection \<open>Command line, globals, transport and files\<close>

text \<open>The parsed command line, \<open>args\<close>. An option that was not given is \<open>None\<close>.\<close>

record args =
  arg_ip :: "string option"
  arg_u :: "string option"
  arg_p :: "string option"
  arg_x :: "string option"
  arg_ssl :: "string option"
  arg_script_examples :: bool
  arg_get_all :: bool
  arg_get_severity :: "string option"
  arg_get_category :: "string option"
  arg_get_date_range :: bool
  arg_start_date :: "string option"
  arg_end_date :: "string option"
  arg_get_fail :: bool
  arg_get_message_id :: "string option"

text \<open>Python's truth value of an option of the command line.\<close>

definition truthy :: "string option \<Rightarrow> bool" where
  "truthy v = (case v of None \<Rightarrow> False | Some s \<Rightarrow> s \<noteq> [])"

text \<open>
  The module-level variables \<open>__main__\<close> assigns. \<open>idrac_ip\<close> and \<open>idrac_username\<close>
  hold a string or Python's \<open>None\<close>; for \<open>idrac_password\<close> and \<open>iDRAC_version\<close>,
  \<open>None\<close> stands for a name that has not been assigned.
\<close>

record globals =
  idrac_ip :: "string option"
  idrac_username :: "string option"
  idrac_password :: "string option"
  verify_cert :: bool
  iDRAC_version :: "string option"

datatype auth = XAuthToken string | BasicAuth "string option" string

datatype resource = Lclog | LclogSkip nat | FirmwareVersion | Filtered string

text \<open>One \<open>requests.get\<close> call: what is asked for and the keyword arguments passed.\<close>

record request =
  resource :: resource
  host :: "string option"
  verify :: bool
  auth :: auth

definition url_of :: "request \<Rightarrow> string" where
  "url_of q =
     ''https://'' @ str_opt (host q) @
     (case resource q of
        Lclog \<Rightarrow> ''/redfish/v1/Managers/iDRAC.Embedded.1/Logs/Lclog''
      | LclogSkip n \<Rightarrow> ''/redfish/v1/Managers/iDRAC.Embedded.1/Logs/Lclog?$skip='' @ show_nat n
      | FirmwareVersion \<Rightarrow> ''/redfish/v1/Managers/iDRAC.Embedded.1?$select=FirmwareVersion''
      | Filtered uri \<Rightarrow> ''/'' @ uri)"

record response =
  status_code :: int
  body :: json

type_synonym transport = "request \<Rightarrow> response"

text \<open>
  What a run changes: the requests issued so far (oldest first), the files of the working
  directory (the chunks written to each, \<open>None\<close> for a file that does not exist), whether
  \<open>open_file\<close> is open, and the local counter \<open>count\<close> of the running retrieval function.
\<close>

record state =
  requests :: "request list"
  files :: "string \<Rightarrow> string list option"
  handle_open :: bool
  count :: nat

text \<open>How a function ends when it does not simply return.\<close>

datatype outcome =
    Done
  | NoEntries
  | EndOfLog
  | Fatal int json
  | GetFailed int json
  | NoneDetected
  | Printed json
  | InvalidArgument
  | AuthError
  | Unsupported
  | VersionUnavailable
  | BadArguments
  | Examples
  | Crash py_error

definition credentials :: "args \<Rightarrow> globals \<Rightarrow> py_error + auth" where
  "credentials a g =
     (case arg_x a of
        Some t \<Rightarrow>
          if t \<noteq> [] then Inr (XAuthToken t)
          else (case idrac_password g of None \<Rightarrow> Inl NameError
                | Some pw \<Rightarrow> Inr (BasicAuth (idrac_username g) pw))
      | None \<Rightarrow>
          (case idrac_password g of None \<Rightarrow> Inl NameError
           | Some pw \<Rightarrow> Inr (BasicAuth (idrac_username g) pw)))"

text \<open>
  The pair of \<open>requests.get\<close> calls under \<open>if args["x"]: ... else: ...\<close>. \<open>vx\<close> is the
  \<open>verify\<close> argument of the call with the token header, \<open>vb\<close> that of the call with
  \<open>auth=(idrac_username, idrac_password)\<close>.
\<close>

definition mk_request :: "globals \<Rightarrow> auth \<Rightarrow> resource \<Rightarrow> bool \<Rightarrow> bool \<Rightarrow> request" where
  "mk_request g c r vx vb =
     \<lparr>resource = r, host = idrac_ip g,
      verify = (case c of XAuthToken t \<Rightarrow> vx | BasicAuth n pw \<Rightarrow> vb), auth = c\<rparr>"

definition http_get ::
  "args \<Rightarrow> globals \<Rightarrow> transport \<Rightarrow> resource \<Rightarrow> bool \<Rightarrow> bool \<Rightarrow> state
     \<Rightarrow> py_error + (response \<times> state)" where
  "http_get a g T r vx vb s =
     (case credentials a g of
        Inl e \<Rightarrow> Inl e
      | Inr c \<Rightarrow>
          Inr (T (mk_request g c r vx vb), s\<lparr>requests := requests s @ [mk_request g c r vx vb]\<rparr>))"

record clock =
  month :: nat
  day :: nat
  year :: nat
  hour :: nat
  minute :: nat
  second :: nat

definition nl :: string where
  "nl = [CHR 0x0A]"

definition current_date_time :: "clock \<Rightarrow> string" where
  "current_date_time t =
     ''- Data collection timestamp: '' @ show_nat (month t) @ ''-'' @ show_nat (day t) @ ''-'' @
     show_nat (year t) @ ''  '' @ show_nat (hour t) @ '':'' @ show_nat (minute t) @ '':'' @
     show_nat (second t) @ nl"

text \<open>\<open>os.remove\<close> inside \<open>try: ... except: ...\<close>, and bare.\<close>

definition remove_quiet :: "string \<Rightarrow> state \<Rightarrow> state" where
  "remove_quiet name s = s\<lparr>files := (files s)(name := None)\<rparr>"

definition os_remove :: "string \<Rightarrow> state \<Rightarrow> py_error + state" where
  "os_remove name s =
     (case files s name of None \<Rightarrow> Inl FileNotFoundError
      | Some cs \<Rightarrow> Inr (s\<lparr>files := (files s)(name := None)\<rparr>))"

definition open_w :: "string \<Rightarrow> state \<Rightarrow> state" where
  "open_w name s = s\<lparr>files := (files s)(name \<mapsto> []), handle_open := True\<rparr>"

definition writelines :: "string \<Rightarrow> string \<Rightarrow> state \<Rightarrow> state" where
  "writelines name chunk s =
     (case files s name of None \<Rightarrow> s
      | Some cs \<Rightarrow> s\<lparr>files := (files s)(name \<mapsto> cs @ [chunk])\<rparr>)"

definition close :: "state \<Rightarrow> state" where
  "close s = s\<lparr>handle_open := False\<rparr>"

text \<open>
  The opening lines of the four retrieval functions that write a file: remove the old
  file, open a new one, write the time stamp and two line ends.
\<close>

definition start_file :: "string \<Rightarrow> clock \<Rightarrow> state \<Rightarrow> state" where
  "start_file name now s =
     writelines name (nl @ nl)
       (writelines name (current_date_time now) (open_w name (remove_quiet name s)))"

text \<open>
  \<open>for ii in i.items(): open_file.writelines("%s\n" % ("%s: %s" % (ii[0], ii[1])))\<close>
  followed by \<open>open_file.writelines("\n")\<close>.
\<close>

definition item_line :: "string \<times> json \<Rightarrow> string" where
  "item_line kv = fst kv @ '': '' @ py_str (snd kv) @ nl"

definition write_items :: "string \<Rightarrow> (string \<times> json) list \<Rightarrow> state \<Rightarrow> state" where
  "write_items name its s = writelines name nl (foldl (\<lambda>s' kv. writelines name (item_line kv) s') s its)"

subsection \<open>The walk over the pages\<close>

text \<open>\<open>[i for i in range (1,100001) if i % 50 == 0]\<close>\<close>

definition number_list :: "nat list" where
  "number_list = filter (\<lambda>i. i mod 50 = 0) [1..<100001]"

text \<open>\<open>data["Members"]\<close> as the sequence a \<open>for\<close> loop runs through.\<close>

definition members_of :: "json \<Rightarrow> py_error + json list" where
  "members_of data = (case subscript data ''Members'' of Inl e \<Rightarrow> Inl e | Inr m \<Rightarrow> py_iter m)"

text \<open>\<open>for i in ...:\<close> with a body that may raise.\<close>

fun for_members ::
  "(json \<Rightarrow> state \<Rightarrow> py_error option \<times> state) \<Rightarrow> json list \<Rightarrow> state \<Rightarrow> py_error option \<times> state" where
  "for_members f [] s = (None, s)"
| "for_members f (i # rest) s =
     (case f i s of (Some e, s') \<Rightarrow> (Some e, s') | (None, s') \<Rightarrow> for_members f rest s')"

text \<open>\<open>data["error"]["@Message.ExtendedInfo"][0]["Message"]\<close>\<close>

definition error_message :: "json \<Rightarrow> py_error + json" where
  "error_message data =
     (case subscript data ''error'' of Inl e \<Rightarrow> Inl e
      | Inr er \<Rightarrow>
        (case subscript er ''@Message.ExtendedInfo'' of Inl e \<Rightarrow> Inl e
         | Inr info \<Rightarrow>
           (case subscript0 info of Inl e \<Rightarrow> Inl e
            | Inr first \<Rightarrow> subscript first ''Message'')))"

definition skip_out_of_range :: string where
  "skip_out_of_range = ''query parameter $skip is out of range''"

definition internal_error :: string where
  "internal_error = ''internal error''"

text \<open>
  \<open>"Members" not in data or data["Members"] == [] or <status tests>\<close>; \<open>st\<close> is the
  value of the status tests that close the condition.
\<close>

definition members_break :: "json \<Rightarrow> bool \<Rightarrow> py_error + bool" where
  "members_break data st =
     (case py_in ''Members'' data of Inl e \<Rightarrow> Inl e
      | Inr present \<Rightarrow>
          if \<not> present then Inr True
          else (case subscript data ''Members'' of Inl e \<Rightarrow> Inl e
                | Inr m \<Rightarrow> Inr (m = JArr [] \<or> st)))"

text \<open>What the body of \<open>for seq in number_list:\<close> does after the request.\<close>

datatype step = Next state | Break state | Exit outcome state

text \<open>
  \<open>for seq in number_list:\<close> with the request for \<open>$skip=seq\<close> that opens the body in
  all four functions; \<open>page\<close> is the rest of the body. The result is \<open>None\<close> when the
  loop was left at its end or by \<open>break\<close>.
\<close>

fun paged_loop ::
  "args \<Rightarrow> globals \<Rightarrow> transport \<Rightarrow> (response \<Rightarrow> state \<Rightarrow> step) \<Rightarrow> nat list \<Rightarrow> state
     \<Rightarrow> outcome option \<times> state" where
  "paged_loop a g T page [] s = (None, s)"
| "paged_loop a g T page (seq # seqs) s =
     (case http_get a g T (LclogSkip seq) (verify_cert g) (verify_cert g) s of
        Inl e \<Rightarrow> (Some (Crash e), s)
      | Inr (r, s1) \<Rightarrow>
          (case page r s1 of
             Exit out s2 \<Rightarrow> (Some out, s2)
           | Break s2 \<Rightarrow> (None, s2)
           | Next s2 \<Rightarrow> paged_loop a g T page seqs s2))"

subsection \<open>\<open>get_LC_logs\<close>: the full dump\<close>

definition lc_logs_txt :: string where
  "lc_logs_txt = ''lc_logs.txt''"

text \<open>The body of \<open>for i in data['Members']:\<close> in \<open>get_LC_logs\<close>.\<close>

definition lc_entry :: "json \<Rightarrow> state \<Rightarrow> py_error option \<times> state" where
  "lc_entry i s =
     (case py_items i of Inl e \<Rightarrow> (Some e, s)
      | Inr its \<Rightarrow> (None, write_items lc_logs_txt its s))"

definition lc_page :: "response \<Rightarrow> state \<Rightarrow> step" where
  "lc_page r s =
     (if status_code r = 500 then Exit EndOfLog (close s)
      else if status_code r \<noteq> 200 then
        (case error_message (body r) of
           Inl e \<Rightarrow> Exit (Crash e) s
         | Inr m \<Rightarrow>
             (case py_in skip_out_of_range m of
                Inl e \<Rightarrow> Exit (Crash e) s
              | Inr found \<Rightarrow>
                  if found then Exit EndOfLog (close s)
                  else Exit (Fatal (status_code r) (body r)) s))
      else
        (case members_break (body r) (status_code r = 400) of
           Inl e \<Rightarrow> Exit (Crash e) s
         | Inr stop \<Rightarrow>
             if stop then Break s
             else (case members_of (body r) of
                     Inl e \<Rightarrow> Exit (Crash e) s
                   | Inr ms \<Rightarrow>
                       (case for_members lc_entry ms s of
                          (Some e, s') \<Rightarrow> Exit (Crash e) s'
                        | (None, s') \<Rightarrow> Next s'))))"

definition get_LC_logs :: "args \<Rightarrow> globals \<Rightarrow> clock \<Rightarrow> transport \<Rightarrow> state \<Rightarrow> outcome \<times> state" where
  "get_LC_logs a g now T s0 =
     (let s1 = start_file lc_logs_txt now s0 in
      case http_get a g T Lclog (verify_cert g) (verify_cert g) s1 of
        Inl e \<Rightarrow> (Crash e, s1)
      | Inr (r, s2) \<Rightarrow>
          if status_code r \<noteq> 200 then (GetFailed (status_code r) (body r), s2)
          else (case members_of (body r) of
                  Inl e \<Rightarrow> (Crash e, s2)
                | Inr ms \<Rightarrow>
                    (case for_members lc_entry ms s2 of
                       (Some e, s3) \<Rightarrow> (Crash e, s3)
                     | (None, s3) \<Rightarrow>
                         (case paged_loop a g T lc_page number_list s3 of
                            (Some out, s4) \<Rightarrow> (out, s4)
                          | (None, s4) \<Rightarrow> (Done, close s4)))))"

subsection \<open>\<open>get_LC_log_failures\<close> and \<open>get_message_id\<close>: the two scans\<close>

text \<open>
  The two functions are the same text up to the file name, the key looked for in an
  entry and the test on its value. \<open>scan_items name key test its rest\<close> is the loop
  \<open>for ii in i.items():\<close> at the items \<open>rest\<close> still to come, \<open>its\<close> being all items of
  the entry (the inner loop that writes the entry runs through them again).
\<close>

definition bump :: "state \<Rightarrow> state" where
  "bump s = s\<lparr>count := count s + 1\<rparr>"

fun scan_items ::
  "string \<Rightarrow> string \<Rightarrow> (json \<Rightarrow> py_error + bool) \<Rightarrow> (string \<times> json) list
     \<Rightarrow> (string \<times> json) list \<Rightarrow> state \<Rightarrow> py_error option \<times> state" where
  "scan_items name key test its [] s = (None, s)"
| "scan_items name key test its (kv # rest) s =
     (if fst kv = key then
        (case test (snd kv) of
           Inl e \<Rightarrow> (Some e, s)
         | Inr hit \<Rightarrow>
             if hit then scan_items name key test its rest (write_items name its (bump s))
             else scan_items name key test its rest s)
      else scan_items name key test its rest s)"

definition scan_entry ::
  "string \<Rightarrow> string \<Rightarrow> (json \<Rightarrow> py_error + bool) \<Rightarrow> json \<Rightarrow> state \<Rightarrow> py_error option \<times> state" where
  "scan_entry name key test i s =
     (case py_items i of Inl e \<Rightarrow> (Some e, s)
      | Inr its \<Rightarrow> scan_items name key test its its s)"

text \<open>
  \<open>"query parameter $skip is out of range" in m or "internal error" in m\<close> for the
  message \<open>m\<close> of an error body.
\<close>

definition skip_or_internal :: "json \<Rightarrow> py_error + bool" where
  "skip_or_internal m =
     (case py_in skip_out_of_range m of Inl e \<Rightarrow> Inl e
      | Inr found \<Rightarrow> if found then Inr True else py_in internal_error m)"

definition scan_page ::
  "string \<Rightarrow> (json \<Rightarrow> state \<Rightarrow> py_error option \<times> state) \<Rightarrow> response \<Rightarrow> state \<Rightarrow> step" where
  "scan_page name entry r s =
     (if status_code r = 500 then Exit EndOfLog (close s)
      else if status_code r \<noteq> 200 then
        (case error_message (body r) of
           Inl e \<Rightarrow> Exit (Crash e) s
         | Inr m \<Rightarrow>
             (case skip_or_internal m of
                Inl e \<Rightarrow> Exit (Crash e) s
              | Inr found \<Rightarrow>
                  if found then
                    (if count s = 0 then Exit NoEntries (remove_quiet name (close s))
                     else Exit EndOfLog (close (close s)))
                  else Exit (Fatal (status_code r) (body r)) s))
      else
        (case members_break (body r) (status_code r = 400 \<or> status_code r = 500) of
           Inl e \<Rightarrow> Exit (Crash e) s
         | Inr stop \<Rightarrow>
             if stop then Break s
             else (case members_of (body r) of
                     Inl e \<Rightarrow> Exit (Crash e) s
                   | Inr ms \<Rightarrow>
                       (case for_members entry ms s of
                          (Some e, s') \<Rightarrow> Exit (Crash e) s'
                        | (None, s') \<Rightarrow> Next s'))))"

text \<open>The lines after the loop: \<open>if count == 0: ... else: ...\<close>.\<close>

definition scan_finish :: "string \<Rightarrow> state \<Rightarrow> outcome \<times> state" where
  "scan_finish name s = (if count s = 0 then (NoEntries, remove_quiet name s) else (Done, close s))"

definition scan ::
  "string \<Rightarrow> (json \<Rightarrow> state \<Rightarrow> py_error option \<times> state) \<Rightarrow> args \<Rightarrow> globals \<Rightarrow> clock
     \<Rightarrow> transport \<Rightarrow> state \<Rightarrow> outcome \<times> state" where
  "scan name entry a g now T s0 =
     (let s1 = start_file name now (s0\<lparr>count := 0\<rparr>) in
      case http_get a g T Lclog (verify_cert g) (verify_cert g) s1 of
        Inl e \<Rightarrow> (Crash e, s1)
      | Inr (r, s2) \<Rightarrow>
          (case members_of (body r) of
             Inl e \<Rightarrow> (Crash e, s2)
           | Inr ms \<Rightarrow>
               (case for_members entry ms s2 of
                  (Some e, s3) \<Rightarrow> (Crash e, s3)
                | (None, s3) \<Rightarrow>
                    (case paged_loop a g T (scan_page name entry) number_list s3 of
                       (Some out, s4) \<Rightarrow> (out, s4)
                     | (None, s4) \<Rightarrow> scan_finish name s4))))"

definition lc_log_failures_txt :: string where
  "lc_log_failures_txt = ''lc_log_failures.txt''"

text \<open>
  \<open>"unable" in m or "fail" in m or "fail" in m or "error" in m\<close> for
  \<open>m = ii[1].lower()\<close>.
\<close>

definition fail_keyword :: "json \<Rightarrow> py_error + bool" where
  "fail_keyword v =
     (case py_lower v of Inl e \<Rightarrow> Inl e
      | Inr m \<Rightarrow> Inr (is_substring ''unable'' m \<or> is_substring ''fail'' m \<or>
                      is_substring ''fail'' m \<or> is_substring ''error'' m))"

definition get_LC_log_failures :: "args \<Rightarrow> globals \<Rightarrow> clock \<Rightarrow> transport \<Rightarrow> state \<Rightarrow> outcome \<times> state" where
  "get_LC_log_failures a g now T s =
     scan lc_log_failures_txt (scan_entry lc_log_failures_txt ''Message'' fail_keyword) a g now T s"

definition message_id_entries_txt :: string where
  "message_id_entries_txt = ''message_id_entries.txt''"

text \<open>
  \<open>if iDRAC_version == "new": message_id = ii[1].split(".")[-1]\<close>, otherwise
  \<open>message_id = ii[1]\<close>; \<open>ver\<close> is the value of the global.
\<close>

definition normalize_message_id :: "string \<Rightarrow> json \<Rightarrow> py_error + json" where
  "normalize_message_id ver v =
     (if ver = ''new'' then
        (case v of JStr s \<Rightarrow> Inr (JStr (last (split_on CHR ''.'' s))) | _ \<Rightarrow> Inl AttributeError)
      else Inr v)"

text \<open>
  The test of \<open>get_message_id\<close> on the value of the key \<open>MessageId\<close>, ending in
  \<open>message_id.lower() in args["get_message_id"].lower()\<close>.
\<close>

definition message_id_match :: "args \<Rightarrow> globals \<Rightarrow> json \<Rightarrow> py_error + bool" where
  "message_id_match a g v =
     (case iDRAC_version g of
        None \<Rightarrow> Inl NameError
      | Some ver \<Rightarrow>
          (case normalize_message_id ver v of
             Inl e \<Rightarrow> Inl e
           | Inr message_id \<Rightarrow>
               (case py_lower message_id of
                  Inl e \<Rightarrow> Inl e
                | Inr m \<Rightarrow>
                    (case arg_get_message_id a of
                       None \<Rightarrow> Inl AttributeError
                     | Some ids \<Rightarrow> Inr (is_substring m (lower ids))))))"

definition get_message_id :: "args \<Rightarrow> globals \<Rightarrow> clock \<Rightarrow> transport \<Rightarrow> state \<Rightarrow> outcome \<times> state" where
  "get_message_id a g now T s =
     scan message_id_entries_txt
       (scan_entry message_id_entries_txt ''MessageId'' (message_id_match a g)) a g now T s"

subsection \<open>\<open>get_category_entries\<close>\<close>

definition category_entries_txt :: string where
  "category_entries_txt = ''category_entries.txt''"

definition categories :: "string list" where
  "categories = [''audit'', ''configuration'', ''updates'', ''systemhealth'', ''storage'']"

text \<open>\<open>i["Oem"]["Dell"]["Category"].lower() == args["get_category"]\<close>; \<open>c\<close> is the argument.\<close>

definition category_match :: "string \<Rightarrow> json \<Rightarrow> py_error + bool" where
  "category_match c i =
     (case subscript i ''Oem'' of Inl e \<Rightarrow> Inl e
      | Inr oem \<Rightarrow>
        (case subscript oem ''Dell'' of Inl e \<Rightarrow> Inl e
         | Inr dell \<Rightarrow>
           (case subscript dell ''Category'' of Inl e \<Rightarrow> Inl e
            | Inr cat \<Rightarrow>
              (case py_lower cat of Inl e \<Rightarrow> Inl e
               | Inr m \<Rightarrow> Inr (m = c)))))"

text \<open>The body of \<open>for i in data['Members']:\<close> in \<open>get_category_entries\<close>.\<close>

definition category_entry :: "string \<Rightarrow> json \<Rightarrow> state \<Rightarrow> py_error option \<times> state" where
  "category_entry c i s =
     (case category_match c i of
        Inl e \<Rightarrow> (Some e, s)
      | Inr hit \<Rightarrow>
          if hit then
            (None, bump (writelines category_entries_txt (nl @ nl)
                           (writelines category_entries_txt (py_str i) s)))
          else (None, s))"

definition category_page :: "string \<Rightarrow> response \<Rightarrow> state \<Rightarrow> step" where
  "category_page c r s =
     (if status_code r = 500 then
        (if count s = 0 then
           (case os_remove category_entries_txt (close s) of
              Inl e \<Rightarrow> Exit (Crash e) (close s)
            | Inr s' \<Rightarrow> Exit NoEntries s')
         else Exit EndOfLog (close s))
      else if status_code r \<noteq> 200 then
        (case error_message (body r) of
           Inl e \<Rightarrow> Exit (Crash e) s
         | Inr m \<Rightarrow>
             (case skip_or_internal m of
                Inl e \<Rightarrow> Exit (Crash e) s
              | Inr found \<Rightarrow>
                  if found then
                    (if count s = 0 then Exit NoEntries (remove_quiet category_entries_txt (close s))
                     else Exit EndOfLog (close (close s)))
                  else Exit (Fatal (status_code r) (body r)) s))
      else
        (case members_of (body r) of
           Inl e \<Rightarrow> Exit (Crash e) s
         | Inr ms \<Rightarrow>
             (case for_members (category_entry c) ms s of
                (Some e, s') \<Rightarrow> Exit (Crash e) s'
              | (None, s') \<Rightarrow> Next s')))"

definition get_category_entries :: "args \<Rightarrow> globals \<Rightarrow> clock \<Rightarrow> transport \<Rightarrow> state \<Rightarrow> outcome \<times> state" where
  "get_category_entries a g now T s0 =
     (case arg_get_category a of
        None \<Rightarrow> (Crash AttributeError, s0)
      | Some c \<Rightarrow>
          if lower c \<notin> set categories then (InvalidArgument, s0)
          else
            (let s1 = start_file category_entries_txt now (s0\<lparr>count := 0\<rparr>) in
             case http_get a g T Lclog (verify_cert g) (verify_cert g) s1 of
               Inl e \<Rightarrow> (Crash e, s1)
             | Inr (r, s2) \<Rightarrow>
                 (case members_of (body r) of
                    Inl e \<Rightarrow> (Crash e, s2)
                  | Inr ms \<Rightarrow>
                      (case for_members (category_entry c) ms s2 of
                         (Some e, s3) \<Rightarrow> (Crash e, s3)
                       | (None, s3) \<Rightarrow>
                           (case paged_loop a g T (category_page c) number_list s3 of
                              (Some out, s4) \<Rightarrow> (out, s4)
                            | (None, s4) \<Rightarrow> scan_finish category_entries_txt s4)))))"

subsection \<open>The two retrievals filtered by the server\<close>

text \<open>The \<open>if\<close>/\<open>elif\<close> chain that opens \<open>get_specific_severity_logs\<close>; \<open>None\<close> is its \<open>else\<close>.\<close>

definition severity_filter_uri :: "string \<Rightarrow> string option" where
  "severity_filter_uri v =
     (if lower v = ''informational'' then
        Some (''redfish/v1/Managers/iDRAC.Embedded.1/Logs/Lclog?$filter=Severity eq '' @ [CHR 0x27] @ ''OK'' @ [CHR 0x27])
      else if lower v = ''critical'' then
        Some (''redfish/v1/Managers/iDRAC.Embedded.1/Logs/Lclog?$filter=Severity eq '' @ [CHR 0x27] @ ''Critical'' @ [CHR 0x27])
      else if lower v = ''warning'' then
        Some (''redfish/v1/Managers/iDRAC.Embedded.1/Logs/Lclog?$filter=Severity eq '' @ [CHR 0x27] @ ''Warning'' @ [CHR 0x27])
      else None)"

text \<open>
  The common end of the two functions: one request, the status tests, and the test
  \<open>data["Members"] == []\<close>.
\<close>

definition filtered_get :: "args \<Rightarrow> globals \<Rightarrow> transport \<Rightarrow> string \<Rightarrow> state \<Rightarrow> outcome \<times> state" where
  "filtered_get a g T uri s =
     (case http_get a g T (Filtered uri) (verify_cert g) (verify_cert g) s of
        Inl e \<Rightarrow> (Crash e, s)
      | Inr (r, s1) \<Rightarrow>
          if status_code r = 401 then (AuthError, s1)
          else if status_code r \<noteq> 200 then (Unsupported, s1)
          else (case subscript (body r) ''Members'' of
                  Inl e \<Rightarrow> (Crash e, s1)
                | Inr m \<Rightarrow> if m = JArr [] then (NoneDetected, s1) else (Printed (body r), s1)))"

definition get_specific_severity_logs :: "args \<Rightarrow> globals \<Rightarrow> transport \<Rightarrow> state \<Rightarrow> outcome \<times> state" where
  "get_specific_severity_logs a g T s =
     (case arg_get_severity a of
        None \<Rightarrow> (Crash AttributeError, s)
      | Some v \<Rightarrow>
          (case severity_filter_uri v of
             None \<Rightarrow> (InvalidArgument, s)
           | Some filter_uri \<Rightarrow> filtered_get a g T filter_uri s))"

definition date_range_uri :: "args \<Rightarrow> string" where
  "date_range_uri a =
     ''redfish/v1/Managers/iDRAC.Embedded.1/LogServices/Lclog/Entries?$filter=Created ge '' @
     [CHR 0x27] @ str_opt (arg_start_date a) @ [CHR 0x27] @ '' and Created le '' @
     [CHR 0x27] @ str_opt (arg_end_date a) @ [CHR 0x27]"

definition get_date_range :: "args \<Rightarrow> globals \<Rightarrow> transport \<Rightarrow> state \<Rightarrow> outcome \<times> state" where
  "get_date_range a g T s = filtered_get a g T (date_range_uri a) s"

subsection \<open>The probes and \<open>__main__\<close>\<close>

text \<open>The result is \<open>None\<close> when the function returns to its caller.\<close>

definition check_supported_idrac_version ::
  "args \<Rightarrow> globals \<Rightarrow> transport \<Rightarrow> state \<Rightarrow> outcome option \<times> state" where
  "check_supported_idrac_version a g T s =
     (case http_get a g T Lclog (verify_cert g) (verify_cert g) s of
        Inl e \<Rightarrow> (Some (Crash e), s)
      | Inr (r, s1) \<Rightarrow>
          if status_code r = 401 then (Some AuthError, s1)
          else if status_code r \<noteq> 200 then (Some Unsupported, s1)
          else (None, s1))"

text \<open>\<open>int(data["FirmwareVersion"].replace(".",""))\<close>\<close>

definition firmware_number :: "json \<Rightarrow> py_error + int" where
  "firmware_number data =
     (case subscript data ''FirmwareVersion'' of
        Inl e \<Rightarrow> Inl e
      | Inr v \<Rightarrow> (case v of JStr s \<Rightarrow> py_int (remove_char CHR ''.'' s) | _ \<Rightarrow> Inl AttributeError))"

text \<open>
  The request of the branch with user name and password is written with
  \<open>verify=False\<close>, that of the branch with the token with \<open>verify=verify_cert\<close>.
\<close>

definition get_iDRAC_version ::
  "args \<Rightarrow> globals \<Rightarrow> transport \<Rightarrow> state \<Rightarrow> outcome option \<times> globals \<times> state" where
  "get_iDRAC_version a g T s =
     (case http_get a g T FirmwareVersion (verify_cert g) False s of
        Inl e \<Rightarrow> (Some (Crash e), g, s)
      | Inr (r, s1) \<Rightarrow>
          if status_code r = 401 then (None, g, s1)
          else if status_code r \<noteq> 200 then (Some VersionUnavailable, g, s1)
          else (case firmware_number (body r) of
                  Inl e \<Rightarrow> (Some (Crash e), g, s1)
                | Inr n \<Rightarrow>
                    if n \<ge> 6000000 then (None, g\<lparr>iDRAC_version := Some ''new''\<rparr>, s1)
                    else (None, g\<lparr>iDRAC_version := Some ''old''\<rparr>, s1)))"

text \<open>
  The assignments of \<open>__main__\<close>; \<open>typed\<close> is what the user enters when \<open>getpass\<close>
  prompts for the password.
\<close>

definition resolve_globals :: "args \<Rightarrow> string \<Rightarrow> globals" where
  "resolve_globals a typed =
     \<lparr>idrac_ip = arg_ip a,
      idrac_username = arg_u a,
      idrac_password =
        (if truthy (arg_p a) then arg_p a
         else if \<not> truthy (arg_x a) \<and> truthy (arg_u a) then Some typed
         else None),
      verify_cert =
        (case arg_ssl a of
           None \<Rightarrow> False
         | Some v \<Rightarrow>
             if v \<noteq> [] then (if lower v = ''true'' then True
                               else if lower v = ''false'' then False else False)
             else False),
      iDRAC_version = None\<rparr>"

text \<open>The chain \<open>if args["get_fail"]: ... elif ...\<close> that ends the script.\<close>

definition dispatch :: "args \<Rightarrow> globals \<Rightarrow> clock \<Rightarrow> transport \<Rightarrow> state \<Rightarrow> outcome \<times> state" where
  "dispatch a g now T s =
     (if arg_get_fail a then get_LC_log_failures a g now T s
      else if arg_get_date_range a \<and> truthy (arg_start_date a) \<and> truthy (arg_end_date a) then
        get_date_range a g T s
      else if truthy (arg_get_severity a) then get_specific_severity_logs a g T s
      else if arg_get_all a then get_LC_logs a g now T s
      else if truthy (arg_get_message_id a) then get_message_id a g now T s
      else if truthy (arg_get_category a) then get_category_entries a g now T s
      else (BadArguments, s))"

definition main :: "args \<Rightarrow> string \<Rightarrow> clock \<Rightarrow> transport \<Rightarrow> state \<Rightarrow> outcome \<times> state" where
  "main a typed now T s =
     (if arg_script_examples a then (Examples, s)
      else if (truthy (arg_ip a) \<and> truthy (arg_ssl a)) \<or> truthy (arg_u a) \<or> truthy (arg_p a)
              \<or> truthy (arg_x a) then
        (let g = resolve_globals a typed in
         case check_supported_idrac_version a g T s of
           (Some out, s1) \<Rightarrow> (out, s1)
         | (None, s1) \<Rightarrow>
             (case get_iDRAC_version a g T s1 of
                (Some out, g', s2) \<Rightarrow> (out, s2)
              | (None, g', s2) \<Rightarrow> dispatch a g' now T s2))
      else (BadArguments, s))"

section \<open>Inputs of the worked runs\<close>

text \<open>
  A command line with address, user name and password and no retrieval mode chosen, an
  empty working directory with no request issued yet, a clock, one log entry, and
  servers built from the answer to the request without a page parameter, the answers
  by offset and the answer to the firmware request.
\<close>

definition cli :: args where
  "cli = \<lparr>arg_ip = Some ''192.168.0.120'', arg_u = Some ''root'', arg_p = Some ''calvin'',
          arg_x = None, arg_ssl = None, arg_script_examples = False, arg_get_all = False,
          arg_get_severity = None, arg_get_category = None, arg_get_date_range = False,
          arg_start_date = None, arg_end_date = None, arg_get_fail = False,
          arg_get_message_id = None\<rparr>"

definition fresh :: state where
  "fresh = \<lparr>requests = [], files = (\<lambda>name. None), handle_open = False, count = 0\<rparr>"

definition noon :: clock where
  "noon = \<lparr>month = 3, day = 15, year = 2023, hour = 12, minute = 0, second = 7\<rparr>"

definition entry_ok :: json where
  "entry_ok = JObj [(''Message'', JStr ''Configuration applied successfully''),
                    (''MessageId'', JStr ''Update.1.0.SYS1003''),
                    (''Oem'', JObj [(''Dell'', JObj [(''Category'', JStr ''Audit'')])])]"

definition ok_page :: "json list \<Rightarrow> response" where
  "ok_page ms = \<lparr>status_code = 200, body = JObj [(''Members'', JArr ms)]\<rparr>"

definition error_response :: "int \<Rightarrow> string \<Rightarrow> response" where
  "error_response code msg =
     \<lparr>status_code = code,
      body = JObj [(''error'', JObj [(''@Message.ExtendedInfo'', JArr [JObj [(''Message'', JStr msg)]])])]\<rparr>"

definition firmware :: response where
  "firmware = \<lparr>status_code = 200, body = JObj [(''FirmwareVersion'', JStr ''6.10.30.00'')]\<rparr>"

definition server :: "response \<Rightarrow> (nat \<Rightarrow> response) \<Rightarrow> response \<Rightarrow> transport" where
  "server first paged fw q =
     (case resource q of
        Lclog \<Rightarrow> first
      | LclogSkip n \<Rightarrow> paged n
      | FirmwareVersion \<Rightarrow> fw
      | Filtered uri \<Rightarrow> ok_page [])"

text \<open>One page with one entry; every request with \<open>$skip\<close> is answered with status 500.\<close>

definition closed_cursor :: transport where
  "closed_cursor = server (ok_page [entry_ok]) (\<lambda>n. error_response 500 ''closed'') firmware"

definition fail_run_500 :: "outcome \<times> state" where
  "fail_run_500 = main (cli\<lparr>arg_get_fail := True\<rparr>) [] noon closed_cursor fresh"

definition message_id_run_500 :: "outcome \<times> state" where
  "message_id_run_500 = main (cli\<lparr>arg_get_message_id := Some ''WRK0001''\<rparr>) [] noon closed_cursor fresh"

definition category_run_500 :: "outcome \<times> state" where
  "category_run_500 = main (cli\<lparr>arg_get_category := Some ''storage''\<rparr>) [] noon closed_cursor fresh"

definition entry_unable :: json where
  "entry_unable = JObj [(''Message'', JStr ''Unable to configure NIC''),
                        (''MessageId'', JStr ''Update.1.0.WRK0001''),
                        (''Oem'', JObj [(''Dell'', JObj [(''Category'', JStr ''Configuration'')])])]"

text \<open>
  One page with one entry; every request with \<open>$skip\<close> is answered with status 400 and
  an error body whose message contains \<open>internal error\<close>.
\<close>

definition internal_error_server :: transport where
  "internal_error_server =
     server (ok_page [entry_unable])
       (\<lambda>n. error_response 400 ''The request failed due to an internal error.'') firmware"

definition full_dump_run_internal :: "outcome \<times> state" where
  "full_dump_run_internal = main (cli\<lparr>arg_get_all := True\<rparr>) [] noon internal_error_server fresh"

definition fail_run_internal :: "outcome \<times> state" where
  "fail_run_internal = main (cli\<lparr>arg_get_fail := True\<rparr>) [] noon internal_error_server fresh"

definition message_id_run_internal :: "outcome \<times> state" where
  "message_id_run_internal =
     main (cli\<lparr>arg_get_message_id := Some ''WRK0001''\<rparr>) [] noon internal_error_server fresh"

definition category_run_internal :: "outcome \<times> state" where
  "category_run_internal =
     main (cli\<lparr>arg_get_category := Some ''configuration''\<rparr>) [] noon internal_error_server fresh"

text \<open>
  The page at offset 50 is an answer with status 200 and an empty \<open>Members\<close> list, the
  page at offset 100 holds an entry, every later request is answered with status 500.
\<close>

definition gap_server :: transport where
  "gap_server =
     server (ok_page [entry_ok])
       (\<lambda>n. if n = 50 then ok_page [] else if n = 100 then ok_page [entry_unable]
            else error_response 500 ''closed'') firmware"

text \<open>The same with an answer at offset 50 that has status 200 and no \<open>Members\<close> key.\<close>

definition no_members_server :: transport where
  "no_members_server =
     server (ok_page [entry_ok])
       (\<lambda>n. if n = 50 then \<lparr>status_code = 200, body = JObj []\<rparr>
            else error_response 500 ''closed'') firmware"

definition category_run_gap :: "outcome \<times> state" where
  "category_run_gap = main (cli\<lparr>arg_get_category := Some ''configuration''\<rparr>) [] noon gap_server fresh"

definition full_dump_run_gap :: "outcome \<times> state" where
  "full_dump_run_gap = main (cli\<lparr>arg_get_all := True\<rparr>) [] noon gap_server fresh"

definition category_run_no_members :: "outcome \<times> state" where
  "category_run_no_members =
     main (cli\<lparr>arg_get_category := Some ''configuration''\<rparr>) [] noon no_members_server fresh"

definition full_dump_run_no_members :: "outcome \<times> state" where
  "full_dump_run_no_members = main (cli\<lparr>arg_get_all := True\<rparr>) [] noon no_members_server fresh"

text \<open>The category given as \<open>Audit\<close> and as \<open>audit\<close>; the entry of the server has \<open>Audit\<close>.\<close>

definition category_run_Audit :: "outcome \<times> state" where
  "category_run_Audit = main (cli\<lparr>arg_get_category := Some ''Audit''\<rparr>) [] noon closed_cursor fresh"

definition category_run_audit :: "outcome \<times> state" where
  "category_run_audit = main (cli\<lparr>arg_get_category := Some ''audit''\<rparr>) [] noon closed_cursor fresh"




text \<open>Runs with \<open>--ssl true\<close>: with user name and password, and with a session token.\<close>

definition cli_ssl :: args where
  "cli_ssl = cli\<lparr>arg_ssl := Some ''true'', arg_get_all := True\<rparr>"

definition cli_ssl_token :: args where
  "cli_ssl_token = cli\<lparr>arg_u := None, arg_p := None, arg_x := Some ''token'',
                       arg_ssl := Some ''true'', arg_get_all := True\<rparr>"

definition ssl_run :: "outcome \<times> state" where
  "ssl_run = main cli_ssl [] noon closed_cursor fresh"

definition ssl_token_run :: "outcome \<times> state" where
  "ssl_token_run = main cli_ssl_token [] noon closed_cursor fresh"

text \<open>The part of a string after its last dot; the string itself when it has no dot.\<close>

definition final_segment :: "string \<Rightarrow> string" where
  "final_segment s = rev (takeWhile (\<lambda>c. c \<noteq> CHR ''.'') (rev s))"

text \<open>
  A server with one page whose answer to the firmware request has status 401, and the
  run for a message id against it.
\<close>

definition unauthorized_firmware :: transport where
  "unauthorized_firmware =
     server (ok_page [entry_unable]) (\<lambda>n. error_response 500 ''closed'')
       (error_response 401 ''unauthorized'')"

definition message_id_run_401 :: "outcome \<times> state" where
  "message_id_run_401 =
     main (cli\<lparr>arg_get_message_id := Some ''WRK0001''\<rparr>) [] noon unauthorized_firmware fresh"

text \<open>
  The globals as \<open>__main__\<close> resolves them for \<open>cli\<close>, with \<open>iDRAC_version\<close> assigned,
  and a command line with a list of message ids.
\<close>

definition new_globals :: globals where
  "new_globals = (resolve_globals cli [])\<lparr>iDRAC_version := Some ''new''\<rparr>"

definition old_globals :: globals where
  "old_globals = (resolve_globals cli [])\<lparr>iDRAC_version := Some ''old''\<rparr>"

definition cli_ids :: args where
  "cli_ids = cli\<lparr>arg_get_message_id := Some ''sys1003,WRK0001''\<rparr>"

section \<open>Notions used to state the properties\<close>

text \<open>The four retrieval functions that walk the pages, under one name.\<close>

datatype mode = FullDump | FailKeyword | MessageId | Category

definition walk :: "mode \<Rightarrow> args \<Rightarrow> globals \<Rightarrow> clock \<Rightarrow> transport \<Rightarrow> state \<Rightarrow> outcome \<times> state" where
  "walk m a g now T s =
     (case m of
        FullDump \<Rightarrow> get_LC_logs a g now T s
      | FailKeyword \<Rightarrow> get_LC_log_failures a g now T s
      | MessageId \<Rightarrow> get_message_id a g now T s
      | Category \<Rightarrow> get_category_entries a g now T s)"

definition output_file :: "mode \<Rightarrow> string" where
  "output_file m =
     (case m of FullDump \<Rightarrow> lc_logs_txt | FailKeyword \<Rightarrow> lc_log_failures_txt
      | MessageId \<Rightarrow> message_id_entries_txt | Category \<Rightarrow> category_entries_txt)"

text \<open>
  The offset a request asks for: the request without a page parameter asks for the
  start of the log.
\<close>

fun offset :: "resource \<Rightarrow> nat" where
  "offset (LclogSkip n) = n"
| "offset _ = 0"

fun state_of :: "step \<Rightarrow> state" where
  "state_of (Next s) = s"
| "state_of (Break s) = s"
| "state_of (Exit out s) = s"

text \<open>The requests issued between the state \<open>s\<close> and the later state \<open>s'\<close>.\<close>

definition issued :: "state \<Rightarrow> state \<Rightarrow> request list" where
  "issued s s' = drop (length (requests s)) (requests s')"

text \<open>
  The requests added to those of \<open>s\<close> are the request without a page parameter and then
  the requests for the offsets of \<open>number_list\<close>, in this order, up to some point.
\<close>

definition walk_shape :: "state \<Rightarrow> state \<Rightarrow> bool" where
  "walk_shape s s' \<longleftrightarrow>
     (\<exists>qs. requests s' = requests s @ qs \<and> length qs \<le> Suc (length number_list)
           \<and> map resource qs = take (length qs) (Lclog # map LclogSkip number_list))"

fun is_crash :: "outcome \<Rightarrow> bool" where
  "is_crash (Crash e) = True"
| "is_crash _ = False"

definition stopped :: "outcome \<Rightarrow> bool" where
  "stopped out \<longleftrightarrow> is_crash out \<or> out = NoEntries"

text \<open>
  What the sink is to write for an entry. In the full dump and the two scans: one line
  \<open>key: value\<close> for every item of the entry and then an empty line, once for every item
  that selects the entry (a JSON object has at most one item with a given key). In the
  category mode: the text \<open>str\<close> gives for the whole entry and then two line ends.
\<close>

definition entry_block :: "(string \<times> json) list \<Rightarrow> string list" where
  "entry_block its = map item_line its @ [nl]"

definition hits :: "string \<Rightarrow> (json \<Rightarrow> py_error + bool) \<Rightarrow> (string \<times> json) list \<Rightarrow> nat" where
  "hits key test its = length (filter (\<lambda>kv. fst kv = key \<and> test (snd kv) = Inr True) its)"

definition scan_chunks :: "string \<Rightarrow> (json \<Rightarrow> py_error + bool) \<Rightarrow> json \<Rightarrow> string list" where
  "scan_chunks key test i =
     (case py_items i of Inl e \<Rightarrow> []
      | Inr its \<Rightarrow> concat (replicate (hits key test its) (entry_block its)))"

definition sink_chunks :: "mode \<Rightarrow> args \<Rightarrow> globals \<Rightarrow> json \<Rightarrow> string list" where
  "sink_chunks m a g i =
     (case m of
        FullDump \<Rightarrow> (case py_items i of Inl e \<Rightarrow> [] | Inr its \<Rightarrow> entry_block its)
      | FailKeyword \<Rightarrow> scan_chunks ''Message'' fail_keyword i
      | MessageId \<Rightarrow> scan_chunks ''MessageId'' (message_id_match a g) i
      | Category \<Rightarrow>
          (case arg_get_category a of None \<Rightarrow> []
           | Some c \<Rightarrow> if category_match c i = Inr True then [py_str i, nl @ nl] else []))"

text \<open>
  The entries of a page, and whether the walk writes them: the first answer is written
  whatever its status except in the full dump, a later answer when its status is 200
  and, outside the category mode, its \<open>Members\<close> list is present and not empty.
\<close>

definition entries :: "response \<Rightarrow> json list" where
  "entries r = (case members_of (body r) of Inl e \<Rightarrow> [] | Inr ms \<Rightarrow> ms)"

definition page_chunks :: "mode \<Rightarrow> args \<Rightarrow> globals \<Rightarrow> response \<Rightarrow> string list" where
  "page_chunks m a g r = concat (map (sink_chunks m a g) (entries r))"

definition first_written :: "mode \<Rightarrow> response \<Rightarrow> bool" where
  "first_written m r = (if m = FullDump then status_code r = 200 else True)"

definition paged_written :: "mode \<Rightarrow> response \<Rightarrow> bool" where
  "paged_written m r =
     (status_code r = 200 \<and> (if m = Category then True else members_break (body r) False = Inr False))"

text \<open>The output file after the requests \<open>qs\<close>: the time stamp, then page by page.\<close>

definition expected_output ::
  "mode \<Rightarrow> args \<Rightarrow> globals \<Rightarrow> clock \<Rightarrow> transport \<Rightarrow> request list \<Rightarrow> string list" where
  "expected_output m a g now T qs =
     [current_date_time now, nl @ nl] @
     (case qs of
        [] \<Rightarrow> []
      | q # rest \<Rightarrow>
          (if first_written m (T q) then page_chunks m a g (T q) else []) @
          concat (map (\<lambda>q'. if paged_written m (T q') then page_chunks m a g (T q') else []) rest))"

text \<open>
  What one pass through the loop body does to the file \<open>name\<close>: it appends the chunks
  \<open>C r\<close> of a written page and goes on, or it leaves the file as it is on a page that is
  not written, or it ends in an exception or with the file removed.
\<close>

definition page_ok ::
  "string \<Rightarrow> (response \<Rightarrow> bool) \<Rightarrow> (response \<Rightarrow> string list) \<Rightarrow> (response \<Rightarrow> state \<Rightarrow> step) \<Rightarrow> bool" where
  "page_ok name W C page \<longleftrightarrow>
     (\<forall>r s cs. files s name = Some cs \<longrightarrow>
        requests (state_of (page r s)) = requests s \<and>
        (case page r s of
           Next s' \<Rightarrow> W r \<and> files s' name = Some (cs @ C r)
         | Break s' \<Rightarrow> \<not> W r \<and> files s' name = Some cs
         | Exit out s' \<Rightarrow> is_crash out \<or> out = NoEntries \<or> (\<not> W r \<and> files s' name = Some cs)))"

definition entry_ok_items :: "(string \<times> json) list" where
  "entry_ok_items = [(''Message'', JStr ''Configuration applied successfully''),
                     (''MessageId'', JStr ''Update.1.0.SYS1003''),
                     (''Oem'', JObj [(''Dell'', JObj [(''Category'', JStr ''Audit'')])])]"

definition entry_unable_items :: "(string \<times> json) list" where
  "entry_unable_items = [(''Message'', JStr ''Unable to configure NIC''),
                         (''MessageId'', JStr ''Update.1.0.WRK0001''),
                         (''Oem'', JObj [(''Dell'', JObj [(''Category'', JStr ''Configuration'')])])]"

definition cli_configuration :: args where
  "cli_configuration = cli\<lparr>arg_get_category := Some ''configuration''\<rparr>"

section \<open>Properties\<close>

subsection \<open>Strings and the list of offsets\<close>

lemma is_substring_iff: "is_substring p s \<longleftrightarrow> (\<exists>a b. s = a @ p @ b)"
proof (induction s)
  case Nil
  then show ?case by auto
next
  case (Cons c s)
  show ?case
  proof
    assume "is_substring p (c # s)"
    then consider "prefix p (c # s)" | "is_substring p s" by auto
    then show "\<exists>a b. c # s = a @ p @ b"
    proof cases
      case 1
      then obtain b where "c # s = p @ b" by (auto simp: prefix_def)
      then have "c # s = [] @ p @ b" by simp
      then show ?thesis by blast
    next
      case 2
      with Cons.IH obtain a b where "s = a @ p @ b" by blast
      then have "c # s = (c # a) @ p @ b" by simp
      then show ?thesis by blast
    qed
  next
    assume "\<exists>a b. c # s = a @ p @ b"
    then obtain a b where ab: "c # s = a @ p @ b" by blast
    show "is_substring p (c # s)"
    proof (cases a)
      case Nil
      with ab have "prefix p (c # s)" by (simp add: prefix_def)
      then show ?thesis by simp
    next
      case (Cons a0 a')
      with ab have "s = a' @ p @ b" by simp
      with Cons.IH have "is_substring p s" by blast
      then show ?thesis by simp
    qed
  qed
qed

lemma split_on_not_Nil: "split_on d s \<noteq> []"
  by (induction s) (auto split: list.splits)

lemma split_on_snoc:
  "split_on d (s @ [c]) =
     (if c = d then split_on d s @ [[]]
      else butlast (split_on d s) @ [last (split_on d s) @ [c]])"
  using split_on_not_Nil[of d] by (induction s) (auto split: list.splits)

lemma last_split_on: "last (split_on d s) = rev (takeWhile (\<lambda>c. c \<noteq> d) (rev s))"
  by (induction s rule: rev_induct) (auto simp: split_on_snoc)

lemma number_list_eq: "number_list = map (\<lambda>k. 50 * k) [1..<2001]"
proof -
  have "sorted number_list" "distinct number_list"
    by (simp_all add: number_list_def sorted_wrt_filter)
  moreover have "sorted (map (\<lambda>k. 50 * k) [1..<2001::nat])"
    by (simp add: sorted_map sorted_wrt_iff_nth_less)
  moreover have "distinct (map (\<lambda>k. 50 * k) [1..<2001::nat])"
    by (simp add: distinct_map inj_on_def)
  moreover have "set number_list = set (map (\<lambda>k. 50 * k) [1..<2001::nat])"
  proof -
    have "\<And>i::nat. (1 \<le> i \<and> i < 100001 \<and> i mod 50 = 0) = (\<exists>k. 1 \<le> k \<and> k < 2001 \<and> i = 50 * k)"
      by presburger
    then show ?thesis by (auto simp: number_list_def image_iff)
  qed
  ultimately show ?thesis by (metis sorted_distinct_set_unique)
qed

lemma length_number_list: "length number_list = 2000"
  by (simp add: number_list_eq)

lemma number_list_unfold: "\<exists>rest. number_list = 50 # 100 # 150 # rest"
proof -
  define R where "R = map (\<lambda>k. 50 * k) [Suc (Suc (Suc 1))..<2001::nat]"
  have a: "[1..<2001::nat] = 1 # [Suc 1..<2001]" by (rule upt_conv_Cons) simp
  have b: "[Suc 1..<2001::nat] = Suc 1 # [Suc (Suc 1)..<2001]" by (rule upt_conv_Cons) simp
  have c: "[Suc (Suc 1)..<2001::nat] = Suc (Suc 1) # [Suc (Suc (Suc 1))..<2001]"
    by (rule upt_conv_Cons) simp
  have "number_list = 50 * 1 # 50 * Suc 1 # 50 * Suc (Suc 1) # R"
    unfolding number_list_eq R_def by (simp only: a b c list.map)
  then have "number_list = 50 # 100 # 150 # R" by simp
  then show ?thesis by blast
qed

subsection \<open>Unfolding a run on a given input\<close>

lemmas io_defs = start_file_def remove_quiet_def os_remove_def open_w_def writelines_def close_def
  http_get_def credentials_def mk_request_def members_of_def write_items_def bump_def
  members_break_def error_message_def skip_or_internal_def skip_out_of_range_def internal_error_def
  lower_def lower_char_def

lemmas scan_defs = scan_def[unfolded Let_def] scan_entry_def scan_page_def scan_finish_def
  get_LC_log_failures_def fail_keyword_def lc_log_failures_txt_def
  get_message_id_def message_id_match_def normalize_message_id_def message_id_entries_txt_def

lemmas category_defs = get_category_entries_def[unfolded Let_def] category_page_def category_entry_def
  category_match_def categories_def category_entries_txt_def scan_finish_def

lemmas lc_defs = get_LC_logs_def[unfolded Let_def] lc_page_def lc_entry_def lc_logs_txt_def

lemmas main_defs = main_def dispatch_def resolve_globals_def truthy_def
  check_supported_idrac_version_def get_iDRAC_version_def firmware_number_def py_int_def
  strip_def is_space_def unsigned_def is_digit_def digit_val_def remove_char_def

lemmas input_defs = cli_def fresh_def entry_ok_def entry_unable_def ok_page_def
  error_response_def firmware_def server_def

subsection \<open>Zero matches and the output file\<close>

text \<open>
  Claim C3. A scan that ends with a match count of zero is to leave no output file, on
  every path that ends the walk, the answer with status 500 among them. On the server
  \<open>closed_cursor\<close> the only entry matches neither the failure keywords nor the message
  id \<open>WRK0001\<close> nor the category \<open>storage\<close>, and the request for \<open>$skip=50\<close> is answered
  with status 500. The run of \<open>get_LC_log_failures\<close> and the run of \<open>get_message_id\<close>
  both end with a count of zero and with the output file in place, holding the time
  stamp; the run of \<open>get_category_entries\<close> on the same server removes its file.
\<close>

theorem zero_match_status_500_keeps_file:
  "fst fail_run_500 = EndOfLog
   \<and> count (snd fail_run_500) = 0
   \<and> files (snd fail_run_500) ''lc_log_failures.txt'' = Some [current_date_time noon, nl @ nl]
   \<and> fst message_id_run_500 = EndOfLog
   \<and> count (snd message_id_run_500) = 0
   \<and> files (snd message_id_run_500) ''message_id_entries.txt'' = Some [current_date_time noon, nl @ nl]
   \<and> fst category_run_500 = NoEntries
   \<and> count (snd category_run_500) = 0
   \<and> files (snd category_run_500) ''category_entries.txt'' = None"
proof -
  obtain rest where nl: "number_list = 50 # 100 # 150 # rest"
    using number_list_unfold by blast
  have "fst fail_run_500 = EndOfLog \<and> count (snd fail_run_500) = 0
        \<and> files (snd fail_run_500) ''lc_log_failures.txt'' = Some [current_date_time noon, nl @ nl]"
    by (simp add: fail_run_500_def closed_cursor_def main_defs io_defs scan_defs input_defs nl)
  moreover have "fst message_id_run_500 = EndOfLog \<and> count (snd message_id_run_500) = 0
        \<and> files (snd message_id_run_500) ''message_id_entries.txt'' = Some [current_date_time noon, nl @ nl]"
    by (simp add: message_id_run_500_def closed_cursor_def main_defs io_defs scan_defs input_defs nl)
  moreover have "fst category_run_500 = NoEntries \<and> count (snd category_run_500) = 0
        \<and> files (snd category_run_500) ''category_entries.txt'' = None"
    by (simp add: category_run_500_def closed_cursor_def main_defs io_defs category_defs input_defs nl)
  ultimately show ?thesis by simp
qed

subsection \<open>The walk and the empty page\<close>

text \<open>
  Claim C1. The walk is to stop as soon as an answer with status 200 and an empty or
  absent \<open>Members\<close> list is seen. \<open>get_LC_logs\<close>, \<open>get_LC_log_failures\<close> and
  \<open>get_message_id\<close> test this after every request with \<open>$skip\<close> and leave the loop;
  \<open>get_category_entries\<close> has no such test. On \<open>gap_server\<close> the run for the category
  \<open>configuration\<close> goes on after the empty page at offset 50, requests the offsets 100
  and 150 and writes the entry found at offset 100, where the full dump on the same
  server stops after offset 50. On \<open>no_members_server\<close> the category run ends with a
  \<open>KeyError\<close> at the answer without \<open>Members\<close>, where the full dump ends normally.
\<close>

theorem category_walk_passes_empty_page:
  "map resource (requests (snd category_run_gap))
     = [Lclog, FirmwareVersion, Lclog, LclogSkip 50, LclogSkip 100, LclogSkip 150]
   \<and> files (snd category_run_gap) ''category_entries.txt''
     = Some [current_date_time noon, nl @ nl, py_str entry_unable, nl @ nl]
   \<and> map resource (requests (snd full_dump_run_gap)) = [Lclog, FirmwareVersion, Lclog, LclogSkip 50]
   \<and> fst category_run_no_members = Crash KeyError
   \<and> fst full_dump_run_no_members = Done"
proof -
  obtain rest where nl: "number_list = 50 # 100 # 150 # rest"
    using number_list_unfold by blast
  have "map resource (requests (snd category_run_gap))
          = [Lclog, FirmwareVersion, Lclog, LclogSkip 50, LclogSkip 100, LclogSkip 150]
        \<and> files (snd category_run_gap) ''category_entries.txt''
          = Some [current_date_time noon, nl @ nl, py_str entry_unable, nl @ nl]"
    by (simp add: category_run_gap_def gap_server_def main_defs io_defs category_defs input_defs nl)
  moreover have "map resource (requests (snd full_dump_run_gap))
          = [Lclog, FirmwareVersion, Lclog, LclogSkip 50]"
    by (simp add: full_dump_run_gap_def gap_server_def main_defs io_defs lc_defs input_defs nl)
  moreover have "fst category_run_no_members = Crash KeyError"
    by (simp add: category_run_no_members_def no_members_server_def main_defs io_defs
        category_defs input_defs nl)
  moreover have "fst full_dump_run_no_members = Done"
    by (simp add: full_dump_run_no_members_def no_members_server_def main_defs io_defs lc_defs
        input_defs nl)
  ultimately show ?thesis by simp
qed

subsection \<open>Answers that are not 200\<close>

text \<open>
  Claim C2. In every retrieval mode an answer to a request with \<open>$skip\<close> whose status is
  neither 200 nor 500 is to count as the end of the log when its message contains
  \<open>query parameter $skip is out of range\<close> or \<open>internal error\<close>. \<open>get_LC_logs\<close> looks
  for the first text only. On \<open>internal_error_server\<close> the full dump ends as a fatal
  stop that carries the status 400 and the body, where the fail-keyword, the message-id
  and the category run on the same server end as the end of the log.
\<close>

theorem full_dump_internal_error_is_fatal:
  "fst full_dump_run_internal
     = Fatal 400 (body (error_response 400 ''The request failed due to an internal error.''))
   \<and> fst fail_run_internal = EndOfLog
   \<and> fst message_id_run_internal = EndOfLog
   \<and> fst category_run_internal = EndOfLog"
proof -
  obtain rest where nl: "number_list = 50 # 100 # 150 # rest"
    using number_list_unfold by blast
  have "fst full_dump_run_internal
          = Fatal 400 (body (error_response 400 ''The request failed due to an internal error.''))"
    by (simp add: full_dump_run_internal_def internal_error_server_def main_defs io_defs lc_defs
        input_defs nl)
  moreover have "fst fail_run_internal = EndOfLog"
    by (simp add: fail_run_internal_def internal_error_server_def main_defs io_defs scan_defs
        input_defs nl)
  moreover have "fst message_id_run_internal = EndOfLog"
    by (simp add: message_id_run_internal_def internal_error_server_def main_defs io_defs
        scan_defs input_defs nl)
  moreover have "fst category_run_internal = EndOfLog"
    by (simp add: category_run_internal_def internal_error_server_def main_defs io_defs
        category_defs input_defs nl)
  ultimately show ?thesis by simp
qed

subsection \<open>The category argument\<close>

text \<open>
  Claim C4. The category argument is to be taken in any letter casing. The check of
  the argument lowers it, the comparison with the entry's category does not: the
  lowered category of the entry is compared with the argument as given. With the
  argument \<open>Audit\<close> the entry of category \<open>Audit\<close> is not retained, the count stays zero
  and the output file is removed; with \<open>audit\<close> the same entry is retained.
\<close>

theorem category_argument_not_lowered:
  "fst category_run_Audit = NoEntries
   \<and> count (snd category_run_Audit) = 0
   \<and> files (snd category_run_Audit) ''category_entries.txt'' = None
   \<and> count (snd category_run_audit) = 1
   \<and> files (snd category_run_audit) ''category_entries.txt''
     = Some [current_date_time noon, nl @ nl, py_str entry_ok, nl @ nl]"
proof -
  obtain rest where nl: "number_list = 50 # 100 # 150 # rest"
    using number_list_unfold by blast
  have "fst category_run_Audit = NoEntries \<and> count (snd category_run_Audit) = 0
        \<and> files (snd category_run_Audit) ''category_entries.txt'' = None"
    by (simp add: category_run_Audit_def closed_cursor_def main_defs io_defs category_defs
        input_defs nl)
  moreover have "count (snd category_run_audit) = 1
        \<and> files (snd category_run_audit) ''category_entries.txt''
          = Some [current_date_time noon, nl @ nl, py_str entry_ok, nl @ nl]"
    by (simp add: category_run_audit_def closed_cursor_def main_defs io_defs category_defs
        input_defs nl)
  ultimately show ?thesis by simp
qed

subsection \<open>Certificate verification\<close>

text \<open>
  Claim C9. Every request of a run is to pass the configured toggle \<open>verify_cert\<close> as
  its \<open>verify\<close> argument. In \<open>get_iDRAC_version\<close> the request of the branch with user
  name and password is written with \<open>verify=False\<close>. In a run with \<open>--ssl true\<close>, user
  name and password the toggle is \<open>True\<close> and the firmware request, the second of the
  run, is sent with \<open>verify = False\<close>; in the run with a session token all requests
  carry \<open>True\<close>.
\<close>

theorem firmware_request_verify_hard_coded:
  "verify_cert (resolve_globals cli_ssl []) = True
   \<and> map resource (requests (snd ssl_run)) = [Lclog, FirmwareVersion, Lclog, LclogSkip 50]
   \<and> map verify (requests (snd ssl_run)) = [True, False, True, True]
   \<and> map verify (requests (snd ssl_token_run)) = [True, True, True, True]"
proof -
  obtain rest where nl: "number_list = 50 # 100 # 150 # rest"
    using number_list_unfold by blast
  have "verify_cert (resolve_globals cli_ssl []) = True"
    by (simp add: cli_ssl_def cli_def resolve_globals_def lower_def lower_char_def)
  moreover have "map resource (requests (snd ssl_run)) = [Lclog, FirmwareVersion, Lclog, LclogSkip 50]
        \<and> map verify (requests (snd ssl_run)) = [True, False, True, True]"
    by (simp add: ssl_run_def cli_ssl_def closed_cursor_def main_defs io_defs lc_defs input_defs nl)
  moreover have "map verify (requests (snd ssl_token_run)) = [True, True, True, True]"
    by (simp add: ssl_token_run_def cli_ssl_token_def closed_cursor_def main_defs io_defs lc_defs
        input_defs nl)
  ultimately show ?thesis by simp
qed

subsection \<open>The loop over the items of an entry\<close>

lemma scan_items_absent:
  "key \<notin> fst ` set rest \<Longrightarrow> scan_items name key test its rest s = (None, s)"
  by (induction rest arbitrary: s) auto

lemma scan_items_distinct:
  "distinct (map fst rest) \<Longrightarrow> map_of rest key = Some v \<Longrightarrow> test v = Inr hit \<Longrightarrow>
   scan_items name key test its rest s = (None, if hit then write_items name its (bump s) else s)"
proof (induction rest arbitrary: s)
  case Nil
  then show ?case by simp
next
  case (Cons kv rest)
  show ?case
  proof (cases "fst kv = key")
    case True
    with Cons.prems have v: "snd kv = v" and absent: "key \<notin> fst ` set rest"
      by (cases kv; auto)+
    show ?thesis using True v Cons.prems(3) scan_items_absent[OF absent] by simp
  next
    case False
    with Cons.prems have "map_of rest key = Some v" "distinct (map fst rest)"
      by (cases kv; auto)+
    with Cons.IH Cons.prems(3) False show ?thesis by simp
  qed
qed

lemma scan_items_raises:
  "key \<in> fst ` set rest \<Longrightarrow> (\<And>v. test v = Inl e) \<Longrightarrow>
   scan_items name key test its rest s = (Some e, s)"
  by (induction rest arbitrary: s) auto

subsection \<open>The severity filter\<close>





subsection \<open>The message-id filter\<close>

text \<open>
  Claim C5. With \<open>iDRAC_version\<close> assigned, the value \<open>raw\<close> of an entry's \<open>MessageId\<close>
  is normalised to its final dot-separated segment when the version is \<open>new\<close> and is
  left unchanged otherwise, and the entry is selected (counted and written) exactly
  when the normalised id in lower case occurs in the lowered list of ids of the command
  line as a contiguous block. The entry is a JSON object, so its keys are distinct.
\<close>

theorem message_id_filter:
  assumes "iDRAC_version g = Some ver"
    and "arg_get_message_id a = Some ids"
    and "distinct (map fst its)"
    and "map_of its ''MessageId'' = Some (JStr raw)"
  shows "normalize_message_id ver (JStr raw)
           = Inr (JStr (if ver = ''new'' then final_segment raw else raw))
       \<and> scan_entry message_id_entries_txt ''MessageId'' (message_id_match a g) (JObj its) s
           = (None,
              if (\<exists>pre suf. lower ids
                    = pre @ lower (if ver = ''new'' then final_segment raw else raw) @ suf)
              then write_items message_id_entries_txt its (bump s) else s)"
proof -
  have n: "normalize_message_id ver (JStr raw)
             = Inr (JStr (if ver = ''new'' then final_segment raw else raw))"
    by (simp add: normalize_message_id_def final_segment_def last_split_on)
  have "message_id_match a g (JStr raw)
          = Inr (\<exists>pre suf. lower ids
                   = pre @ lower (if ver = ''new'' then final_segment raw else raw) @ suf)"
    using assms(1,2) by (simp add: message_id_match_def n is_substring_iff)
  then have "scan_items message_id_entries_txt ''MessageId'' (message_id_match a g) its its s
          = (None,
             if (\<exists>pre suf. lower ids
                   = pre @ lower (if ver = ''new'' then final_segment raw else raw) @ suf)
             then write_items message_id_entries_txt its (bump s) else s)"
    using assms(3,4)
    by (rule scan_items_distinct[where test = "message_id_match a g" and v = "JStr raw", rotated 2])
  with n show ?thesis
    by (simp add: scan_entry_def)
qed

theorem message_id_filter_witness:
  "normalize_message_id ''new'' (JStr ''Update.1.0.WRK0001'') = Inr (JStr ''WRK0001'')
   \<and> count (snd (scan_entry message_id_entries_txt ''MessageId'' (message_id_match cli_ids new_globals)
                 entry_unable fresh)) = 1
   \<and> normalize_message_id ''old'' (JStr ''Update.1.0.WRK0001'') = Inr (JStr ''Update.1.0.WRK0001'')
   \<and> scan_entry message_id_entries_txt ''MessageId'' (message_id_match cli_ids old_globals)
        entry_unable fresh = (None, fresh)"
proof -
  have seg: "final_segment ''Update.1.0.WRK0001'' = ''WRK0001''"
    by (simp add: final_segment_def)
  have sub: "\<exists>pre suf. lower ''sys1003,WRK0001'' = pre @ lower ''WRK0001'' @ suf"
    unfolding is_substring_iff[symmetric] by (simp add: lower_def lower_char_def)
  have neg: "\<not> (\<exists>pre suf. lower ''sys1003,WRK0001'' = pre @ lower ''Update.1.0.WRK0001'' @ suf)"
    unfolding is_substring_iff[symmetric] by (simp add: lower_def lower_char_def)
  have n: "normalize_message_id ''new'' (JStr ''Update.1.0.WRK0001'') = Inr (JStr ''WRK0001'')
      \<and> scan_entry message_id_entries_txt ''MessageId'' (message_id_match cli_ids new_globals)
           entry_unable fresh
         = (None, write_items message_id_entries_txt
              [(''Message'', JStr ''Unable to configure NIC''),
               (''MessageId'', JStr ''Update.1.0.WRK0001''),
               (''Oem'', JObj [(''Dell'', JObj [(''Category'', JStr ''Configuration'')])])]
              (bump fresh))"
    using sub
      message_id_filter[where g = new_globals and ver = "''new''" and a = cli_ids
        and ids = "''sys1003,WRK0001''" and raw = "''Update.1.0.WRK0001''" and s = fresh
        and its = "[(''Message'', JStr ''Unable to configure NIC''),
                    (''MessageId'', JStr ''Update.1.0.WRK0001''),
                    (''Oem'', JObj [(''Dell'', JObj [(''Category'', JStr ''Configuration'')])])]"]
    by (simp add: new_globals_def cli_ids_def entry_unable_def seg)
  have o: "normalize_message_id ''old'' (JStr ''Update.1.0.WRK0001'') = Inr (JStr ''Update.1.0.WRK0001'')
      \<and> scan_entry message_id_entries_txt ''MessageId'' (message_id_match cli_ids old_globals)
           entry_unable fresh = (None, fresh)"
    using neg
      message_id_filter[where g = old_globals and ver = "''old''" and a = cli_ids
        and ids = "''sys1003,WRK0001''" and raw = "''Update.1.0.WRK0001''" and s = fresh
        and its = "[(''Message'', JStr ''Unable to configure NIC''),
                    (''MessageId'', JStr ''Update.1.0.WRK0001''),
                    (''Oem'', JObj [(''Dell'', JObj [(''Category'', JStr ''Configuration'')])])]"]
    by (simp add: old_globals_def cli_ids_def entry_unable_def)
  have "count (write_items message_id_entries_txt its (bump fresh)) = 1" for its
    by (induction its rule: rev_induct)
       (simp_all add: write_items_def writelines_def bump_def fresh_def split: option.splits)
  with n o show ?thesis by simp
qed

subsection \<open>The version that was never assigned\<close>

text \<open>
  Claim C10. When the firmware request is answered with status 401,
  \<open>get_iDRAC_version\<close> returns to its caller and leaves the globals as they were, so
  \<open>iDRAC_version\<close> stays unassigned; when it is answered with status 200 and the
  version number parses, \<open>iDRAC_version\<close> is \<open>new\<close> or \<open>old\<close>. A run of
  \<open>get_message_id\<close> with \<open>iDRAC_version\<close> unassigned ends with a \<open>NameError\<close> when the
  first entry of the first page has the key \<open>MessageId\<close>.
\<close>

theorem version_unbound_after_401:
  assumes "credentials a g = Inr c"
  shows "(status_code (T (mk_request g c FirmwareVersion (verify_cert g) False)) = 401 \<longrightarrow>
            get_iDRAC_version a g T s
              = (None, g,
                 s\<lparr>requests := requests s @ [mk_request g c FirmwareVersion (verify_cert g) False]\<rparr>))
       \<and> (status_code (T (mk_request g c FirmwareVersion (verify_cert g) False)) = 200 \<longrightarrow>
            firmware_number (body (T (mk_request g c FirmwareVersion (verify_cert g) False))) = Inr n \<longrightarrow>
            iDRAC_version (fst (snd (get_iDRAC_version a g T s)))
              = Some (if n \<ge> 6000000 then ''new'' else ''old''))
       \<and> (iDRAC_version g = None \<longrightarrow>
            members_of (body (T (mk_request g c Lclog (verify_cert g) (verify_cert g))))
              = Inr (JObj its # rest) \<longrightarrow>
            ''MessageId'' \<in> fst ` set its \<longrightarrow>
            fst (get_message_id a g now T s') = Crash NameError)"
proof -
  have get: "http_get a g T r vx vb st
               = Inr (T (mk_request g c r vx vb), st\<lparr>requests := requests st @ [mk_request g c r vx vb]\<rparr>)"
    for r vx vb st
    using assms by (simp add: http_get_def)
  have a: "status_code (T (mk_request g c FirmwareVersion (verify_cert g) False)) = 401 \<longrightarrow>
            get_iDRAC_version a g T s
              = (None, g,
                 s\<lparr>requests := requests s @ [mk_request g c FirmwareVersion (verify_cert g) False]\<rparr>)"
    by (simp add: get_iDRAC_version_def get)
  have b: "status_code (T (mk_request g c FirmwareVersion (verify_cert g) False)) = 200 \<longrightarrow>
            firmware_number (body (T (mk_request g c FirmwareVersion (verify_cert g) False))) = Inr n \<longrightarrow>
            iDRAC_version (fst (snd (get_iDRAC_version a g T s)))
              = Some (if n \<ge> 6000000 then ''new'' else ''old'')"
    by (simp add: get_iDRAC_version_def get)
  have c: "fst (get_message_id a g now T s') = Crash NameError"
    if unbound: "iDRAC_version g = None"
      and ms: "members_of (body (T (mk_request g c Lclog (verify_cert g) (verify_cert g))))
                 = Inr (JObj its # rest)"
      and key: "''MessageId'' \<in> fst ` set its"
  proof -
    have "message_id_match a g v = Inl NameError" for v
      using unbound by (simp add: message_id_match_def)
    then have "scan_items message_id_entries_txt ''MessageId'' (message_id_match a g) its its st
                 = (Some NameError, st)" for st
      using key by (intro scan_items_raises) auto
    then show ?thesis
      using ms by (simp add: get_message_id_def scan_def get scan_entry_def Let_def)
  qed
  from a b c show ?thesis by blast
qed

theorem version_unbound_after_401_witness:
  "get_iDRAC_version cli (resolve_globals cli []) unauthorized_firmware fresh
     = (None, resolve_globals cli [],
        fresh\<lparr>requests := [mk_request (resolve_globals cli []) (BasicAuth (Some ''root'') ''calvin'')
                              FirmwareVersion False False]\<rparr>)
   \<and> iDRAC_version (resolve_globals cli []) = None
   \<and> fst (get_message_id cli_ids (resolve_globals cli []) noon unauthorized_firmware fresh)
       = Crash NameError
   \<and> iDRAC_version (fst (snd (get_iDRAC_version cli (resolve_globals cli []) closed_cursor fresh)))
       = Some ''new''"
proof -
  have c: "credentials cli (resolve_globals cli []) = Inr (BasicAuth (Some ''root'') ''calvin'')"
    "credentials cli_ids (resolve_globals cli []) = Inr (BasicAuth (Some ''root'') ''calvin'')"
    by (simp_all add: credentials_def cli_ids_def cli_def resolve_globals_def truthy_def)
  have u: "iDRAC_version (resolve_globals cli []) = None"
    by (simp add: resolve_globals_def)
  have n: "firmware_number (body firmware) = Inr 6103000"
    by (simp add: firmware_def firmware_number_def py_int_def strip_def is_space_def unsigned_def
        is_digit_def digit_val_def remove_char_def)
  have "get_iDRAC_version cli (resolve_globals cli []) unauthorized_firmware fresh
     = (None, resolve_globals cli [],
        fresh\<lparr>requests := [mk_request (resolve_globals cli []) (BasicAuth (Some ''root'') ''calvin'')
                              FirmwareVersion False False]\<rparr>)"
    using version_unbound_after_401[OF c(1), where T = unauthorized_firmware and s = fresh]
    by (simp add: unauthorized_firmware_def server_def mk_request_def error_response_def
        fresh_def)
  moreover have "fst (get_message_id cli_ids (resolve_globals cli []) noon unauthorized_firmware fresh)
       = Crash NameError"
    using u version_unbound_after_401[OF c(2), where T = unauthorized_firmware and now = noon
        and s' = fresh and rest = "[]"
        and its = "[(''Message'', JStr ''Unable to configure NIC''),
                    (''MessageId'', JStr ''Update.1.0.WRK0001''),
                    (''Oem'', JObj [(''Dell'', JObj [(''Category'', JStr ''Configuration'')])])]"]
    by (simp add: unauthorized_firmware_def server_def mk_request_def ok_page_def
        entry_unable_def members_of_def)
  moreover have "iDRAC_version (fst (snd (get_iDRAC_version cli (resolve_globals cli []) closed_cursor fresh)))
       = Some ''new''"
    using n version_unbound_after_401[OF c(1), where T = closed_cursor and s = fresh and n = 6103000]
    by (simp add: closed_cursor_def server_def mk_request_def firmware_def)
  ultimately show ?thesis using u by simp
qed

text \<open>
  The same in a whole run: the probe succeeds, the firmware request is answered with
  status 401, and the message-id scan ends with the \<open>NameError\<close> at the first entry.
\<close>

lemma message_id_run_401_NameError:
  "fst message_id_run_401 = Crash NameError
   \<and> map resource (requests (snd message_id_run_401)) = [Lclog, FirmwareVersion, Lclog]"
proof -
  obtain rest where nl: "number_list = 50 # 100 # 150 # rest"
    using number_list_unfold by blast
  show ?thesis
    by (simp add: message_id_run_401_def unauthorized_firmware_def main_defs io_defs scan_defs
        input_defs nl)
qed

subsection \<open>The requests of a walk\<close>

lemma requests_writelines [simp]: "requests (writelines name c s) = requests s"
  by (simp add: writelines_def split: option.splits)

lemma requests_write_items [simp]: "requests (write_items name its s) = requests s"
proof -
  have "requests (foldl (\<lambda>s' kv. writelines name (item_line kv) s') s its) = requests s"
    by (induction its arbitrary: s) simp_all
  then show ?thesis by (simp add: write_items_def)
qed

lemma requests_close [simp]: "requests (close s) = requests s"
  by (simp add: close_def)

lemma requests_remove_quiet [simp]: "requests (remove_quiet name s) = requests s"
  by (simp add: remove_quiet_def)

lemma requests_os_remove: "os_remove name s = Inr s' \<Longrightarrow> requests s' = requests s"
  by (auto simp: os_remove_def split: option.splits)

lemma requests_bump [simp]: "requests (bump s) = requests s"
  by (simp add: bump_def)

lemma requests_start_file [simp]: "requests (start_file name now s) = requests s"
  by (simp add: start_file_def open_w_def)

lemma requests_for_members:
  "(\<And>i s. requests (snd (f i s)) = requests s) \<Longrightarrow>
   requests (snd (for_members f ms s)) = requests s"
proof (induction ms arbitrary: s)
  case Nil
  then show ?case by simp
next
  case (Cons i ms)
  obtain e s1 where f: "f i s = (e, s1)" by (cases "f i s")
  with Cons.prems[of i s] have s1: "requests s1 = requests s" by simp
  show ?case
  proof (cases e)
    case None
    with f s1 Cons.IH[OF Cons.prems, of s1] show ?thesis by simp
  next
    case (Some err)
    with f s1 show ?thesis by simp
  qed
qed

lemma requests_lc_entry: "requests (snd (lc_entry i s)) = requests s"
  by (simp add: lc_entry_def split: sum.splits)

lemma requests_scan_items: "requests (snd (scan_items name key test its rest s)) = requests s"
  by (induction rest arbitrary: s) (auto split: sum.splits)

lemma requests_scan_entry: "requests (snd (scan_entry name key test i s)) = requests s"
  by (simp add: scan_entry_def requests_scan_items split: sum.splits)

lemma requests_category_entry: "requests (snd (category_entry c i s)) = requests s"
  by (simp add: category_entry_def split: sum.splits)

lemma requests_lc_page: "requests (state_of (lc_page r s)) = requests s"
  using requests_for_members[of lc_entry, OF requests_lc_entry]
  by (auto simp: lc_page_def split: sum.splits prod.splits option.splits)
     (metis snd_conv)+

lemma requests_scan_page:
  assumes "\<And>i s. requests (snd (entry i s)) = requests s"
  shows "requests (state_of (scan_page name entry r s)) = requests s"
proof -
  have "requests (snd (for_members entry ms s)) = requests s" for ms
    by (rule requests_for_members) (rule assms)
  then have fm: "for_members entry ms s = (e, s') \<Longrightarrow> requests s' = requests s" for ms e s'
    by (metis snd_conv)
  show ?thesis
    by (auto simp: scan_page_def split: sum.splits prod.splits option.splits dest: fm)
qed

lemma requests_category_page: "requests (state_of (category_page c r s)) = requests s"
proof -
  have "requests (snd (for_members (category_entry c) ms s)) = requests s" for ms
    by (rule requests_for_members) (rule requests_category_entry)
  then have fm: "for_members (category_entry c) ms s = (e, s') \<Longrightarrow> requests s' = requests s"
    for ms e s'
    by (metis snd_conv)
  show ?thesis
    by (auto simp: category_page_def split: sum.splits prod.splits option.splits
        dest: fm requests_os_remove)
qed

lemma http_get_requests:
  "http_get a g T res vx vb s = Inr (r, s1) \<Longrightarrow>
   \<exists>q. requests s1 = requests s @ [q] \<and> resource q = res"
  by (auto simp: http_get_def mk_request_def split: sum.splits)

lemma paged_loop_requests:
  assumes "\<And>r s. requests (state_of (page r s)) = requests s"
  shows "\<exists>qs. requests (snd (paged_loop a g T page seqs s)) = requests s @ qs
              \<and> length qs \<le> length seqs
              \<and> map resource qs = map LclogSkip (take (length qs) seqs)"
proof (induction seqs arbitrary: s)
  case Nil
  then show ?case by simp
next
  case (Cons seq seqs)
  show ?case
  proof (cases "http_get a g T (LclogSkip seq) (verify_cert g) (verify_cert g) s")
    case (Inl e)
    then show ?thesis by simp
  next
    case (Inr p)
    obtain r s1 where p: "p = (r, s1)" by (cases p)
    from http_get_requests[OF Inr[unfolded p]] obtain q
      where q: "requests s1 = requests s @ [q]" "resource q = LclogSkip seq" by blast
    have st: "requests (state_of (page r s1)) = requests s @ [q]"
      using assms[of r s1] q by simp
    show ?thesis
    proof (cases "page r s1")
      case (Next s2)
      from Cons.IH[of s2] obtain qs where
        qs: "requests (snd (paged_loop a g T page seqs s2)) = requests s2 @ qs"
            "length qs \<le> length seqs" "map resource qs = map LclogSkip (take (length qs) seqs)"
        by blast
      have "requests (snd (paged_loop a g T page (seq # seqs) s)) = requests s @ (q # qs)"
        using Inr p Next st qs(1) by simp
      moreover have "length (q # qs) \<le> length (seq # seqs)" using qs(2) by simp
      moreover have "map resource (q # qs) = map LclogSkip (take (length (q # qs)) (seq # seqs))"
        using qs(3) q(2) by simp
      ultimately show ?thesis by blast
    next
      case (Break s2)
      have "requests (snd (paged_loop a g T page (seq # seqs) s)) = requests s @ [q]"
        using Inr p Break st by simp
      moreover have "map resource [q] = map LclogSkip (take (length [q]) (seq # seqs))"
        using q(2) by simp
      ultimately show ?thesis
        by (metis One_nat_def Suc_leI length_Cons list.size(3) zero_less_Suc)
    next
      case (Exit out s2)
      have "requests (snd (paged_loop a g T page (seq # seqs) s)) = requests s @ [q]"
        using Inr p Exit st by simp
      moreover have "map resource [q] = map LclogSkip (take (length [q]) (seq # seqs))"
        using q(2) by simp
      ultimately show ?thesis
        by (metis One_nat_def Suc_leI length_Cons list.size(3) zero_less_Suc)
    qed
  qed
qed

lemma walk_shape_refl: "requests s' = requests s \<Longrightarrow> walk_shape s s'"
  by (simp add: walk_shape_def)

lemma walk_shape_first:
  "requests s' = requests s @ [q] \<Longrightarrow> resource q = Lclog \<Longrightarrow> walk_shape s s'"
  by (simp add: walk_shape_def)

lemma walk_shape_loop:
  assumes page: "\<And>r s. requests (state_of (page r s)) = requests s"
    and q: "requests s3 = requests s @ [q]" "resource q = Lclog"
  shows "walk_shape s (snd (paged_loop a g T page number_list s3))"
proof -
  from paged_loop_requests[of page a g T number_list s3, OF page] obtain qs where
    qs: "requests (snd (paged_loop a g T page number_list s3)) = requests s3 @ qs"
        "length qs \<le> length number_list"
        "map resource qs = map LclogSkip (take (length qs) number_list)"
    by blast
  have "requests (snd (paged_loop a g T page number_list s3)) = requests s @ (q # qs)"
    using qs(1) q(1) by simp
  moreover have "length (q # qs) \<le> Suc (length number_list)" using qs(2) by simp
  moreover have "map resource (q # qs) = take (length (q # qs)) (Lclog # map LclogSkip number_list)"
    using qs(3) q(2) by (simp add: take_map)
  ultimately show ?thesis unfolding walk_shape_def by blast
qed

lemma walk_shape_cong: "walk_shape s s' \<Longrightarrow> requests s'' = requests s' \<Longrightarrow> walk_shape s s''"
  by (simp add: walk_shape_def)

lemma walk_shape_tail:
  assumes page: "\<And>r s. requests (state_of (page r s)) = requests s"
    and entry: "\<And>i s. requests (snd (f i s)) = requests s"
    and fin: "\<And>s. requests (snd (fin s)) = requests s"
    and q: "requests s2 = requests s @ [q]" "resource q = Lclog"
  shows "walk_shape s (snd (case for_members f ms s2 of
                              (Some e, s3) \<Rightarrow> (Crash e, s3)
                            | (None, s3) \<Rightarrow>
                                (case paged_loop a g T page number_list s3 of
                                   (Some out, s4) \<Rightarrow> (out, s4)
                                 | (None, s4) \<Rightarrow> fin s4)))"
proof -
  obtain e s3 where fm: "for_members f ms s2 = (e, s3)" by (cases "for_members f ms s2")
  have s3: "requests s3 = requests s @ [q]"
    using requests_for_members[of f ms s2, OF entry] fm q(1) by simp
  show ?thesis
  proof (cases e)
    case (Some err)
    with fm s3 q(2) show ?thesis by (simp add: walk_shape_first)
  next
    case None
    obtain res s4 where pl: "paged_loop a g T page number_list s3 = (res, s4)"
      by (cases "paged_loop a g T page number_list s3")
    have w: "walk_shape s s4"
      using walk_shape_loop[of page s3 s q a g T, OF page s3 q(2)] pl by simp
    show ?thesis
    proof (cases res)
      case None
      have "walk_shape s (snd (fin s4))" using w fin by (rule walk_shape_cong)
      with fm \<open>e = None\<close> pl None show ?thesis by simp
    next
      case (Some out)
      with fm \<open>e = None\<close> pl w show ?thesis by simp
    qed
  qed
qed

lemma requests_scan_finish: "requests (snd (scan_finish name s)) = requests s"
  by (simp add: scan_finish_def)

lemma walk_shape_get_LC_logs: "walk_shape s (snd (get_LC_logs a g now T s))"
proof (cases "http_get a g T Lclog (verify_cert g) (verify_cert g) (start_file lc_logs_txt now s)")
  case (Inl e)
  then show ?thesis by (simp add: get_LC_logs_def walk_shape_refl)
next
  case (Inr p)
  obtain r s2 where p: "p = (r, s2)" by (cases p)
  from http_get_requests[OF Inr[unfolded p]] obtain q
    where q: "requests s2 = requests s @ [q]" "resource q = Lclog" by auto
  show ?thesis
  proof (cases "status_code r \<noteq> 200")
    case True
    with Inr p q show ?thesis by (simp add: get_LC_logs_def walk_shape_first)
  next
    case False
    show ?thesis
    proof (cases "members_of (body r)")
      case (Inl e)
      with Inr p q False show ?thesis by (simp add: get_LC_logs_def walk_shape_first)
    next
      case ms: (Inr ms)
      have "walk_shape s (snd (case for_members lc_entry ms s2 of
                              (Some e, s3) \<Rightarrow> (Crash e, s3)
                            | (None, s3) \<Rightarrow>
                                (case paged_loop a g T lc_page number_list s3 of
                                   (Some out, s4) \<Rightarrow> (out, s4)
                                 | (None, s4) \<Rightarrow> (Done, close s4))))"
        by (rule walk_shape_tail[OF requests_lc_page requests_lc_entry _ q]) simp
      with Inr p False ms show ?thesis by (simp add: get_LC_logs_def)
    qed
  qed
qed

lemma walk_shape_scan:
  assumes entry: "\<And>i s. requests (snd (entry i s)) = requests s"
  shows "walk_shape s (snd (scan name entry a g now T s))"
proof (cases "http_get a g T Lclog (verify_cert g) (verify_cert g)
                (start_file name now (s\<lparr>count := 0\<rparr>))")
  case (Inl e)
  then show ?thesis by (simp add: scan_def walk_shape_refl)
next
  case (Inr p)
  obtain r s2 where p: "p = (r, s2)" by (cases p)
  from http_get_requests[OF Inr[unfolded p]] obtain q
    where q: "requests s2 = requests s @ [q]" "resource q = Lclog" by auto
  show ?thesis
  proof (cases "members_of (body r)")
    case (Inl e)
    with Inr p q show ?thesis by (simp add: scan_def walk_shape_first)
  next
    case ms: (Inr ms)
    have "walk_shape s (snd (case for_members entry ms s2 of
                            (Some e, s3) \<Rightarrow> (Crash e, s3)
                          | (None, s3) \<Rightarrow>
                              (case paged_loop a g T (scan_page name entry) number_list s3 of
                                 (Some out, s4) \<Rightarrow> (out, s4)
                               | (None, s4) \<Rightarrow> scan_finish name s4)))"
      by (rule walk_shape_tail[OF requests_scan_page entry requests_scan_finish q]) (rule entry)
    with Inr p ms show ?thesis by (simp add: scan_def)
  qed
qed

lemma walk_shape_get_category_entries: "walk_shape s (snd (get_category_entries a g now T s))"
proof (cases "arg_get_category a")
  case None
  then show ?thesis by (simp add: get_category_entries_def walk_shape_refl)
next
  case (Some c)
  show ?thesis
  proof (cases "lower c \<in> set categories")
    case False
    with Some show ?thesis by (simp add: get_category_entries_def walk_shape_refl)
  next
    case True
    show ?thesis
    proof (cases "http_get a g T Lclog (verify_cert g) (verify_cert g)
                    (start_file category_entries_txt now (s\<lparr>count := 0\<rparr>))")
      case (Inl e)
      with Some True show ?thesis by (simp add: get_category_entries_def walk_shape_refl)
    next
      case (Inr p)
      obtain r s2 where p: "p = (r, s2)" by (cases p)
      from http_get_requests[OF Inr[unfolded p]] obtain q
        where q: "requests s2 = requests s @ [q]" "resource q = Lclog" by auto
      show ?thesis
      proof (cases "members_of (body r)")
        case (Inl e)
        with Some True Inr p q show ?thesis
          by (simp add: get_category_entries_def walk_shape_first)
      next
        case ms: (Inr ms)
        have "walk_shape s (snd (case for_members (category_entry c) ms s2 of
                                (Some e, s3) \<Rightarrow> (Crash e, s3)
                              | (None, s3) \<Rightarrow>
                                  (case paged_loop a g T (category_page c) number_list s3 of
                                     (Some out, s4) \<Rightarrow> (out, s4)
                                   | (None, s4) \<Rightarrow> scan_finish category_entries_txt s4)))"
          by (rule walk_shape_tail[OF requests_category_page requests_category_entry
                requests_scan_finish q])
        with Some True Inr p ms show ?thesis by (simp add: get_category_entries_def)
      qed
    qed
  qed
qed

lemma walk_shape_walk: "walk_shape s (snd (walk m a g now T s))"
  by (cases m)
     (simp_all add: walk_def walk_shape_get_LC_logs walk_shape_get_category_entries
        get_LC_log_failures_def get_message_id_def walk_shape_scan requests_scan_entry)

lemma offsets_of_prefix:
  "n \<le> Suc (length number_list) \<Longrightarrow>
   map offset (take n (Lclog # map LclogSkip number_list)) = map (\<lambda>k. 50 * k) [0..<n]"
proof -
  assume n: "n \<le> Suc (length number_list)"
  have all: "map offset (Lclog # map LclogSkip number_list) = map (\<lambda>k. 50 * k) [0..<2001]"
  proof -
    have "map offset (Lclog # map LclogSkip number_list) = 0 # map (\<lambda>k. 50 * k) [1..<2001]"
      by (simp add: number_list_eq comp_def)
    also have "\<dots> = map (\<lambda>k. 50 * k) (0 # [1..<2001])" by simp
    also have "0 # [1..<2001] = [0..<2001::nat]" by (subst (2) upt_conv_Cons) simp_all
    finally show ?thesis .
  qed
  have "map offset (take n (Lclog # map LclogSkip number_list))
          = take n (map offset (Lclog # map LclogSkip number_list))"
    by (simp only: take_map)
  also have "\<dots> = take n (map (\<lambda>k. 50 * k) [0..<2001])" by (simp only: all)
  also have "\<dots> = map (\<lambda>k. 50 * k) (take n [0..<2001])" by (simp only: take_map)
  also have "take n [0..<2001] = [0..<n]"
    using n by (simp only: take_upt length_number_list) simp
  finally show ?thesis .
qed

text \<open>
  Claim C6. In each of the four functions that walk the pages, the requests issued are,
  in this order, the request without a page parameter (offset 0) and the requests for
  \<open>$skip = 50, 100, 150, ...\<close>: the offsets are \<open>50 * k\<close> for \<open>k = 0, 1, 2, ...\<close> without
  gap or repetition, and there are at most 2001 requests, that is at most 2000 with
  \<open>$skip\<close>, whatever the server answers. The walk is a total function: it ends on every
  server.
\<close>

theorem walk_offsets:
  "requests (snd (walk m a g now T s)) = requests s @ issued s (snd (walk m a g now T s))
   \<and> length (issued s (snd (walk m a g now T s))) \<le> 2001
   \<and> map resource (issued s (snd (walk m a g now T s)))
       = take (length (issued s (snd (walk m a g now T s)))) (Lclog # map LclogSkip number_list)
   \<and> map (\<lambda>q. offset (resource q)) (issued s (snd (walk m a g now T s)))
       = map (\<lambda>k. 50 * k) [0..<length (issued s (snd (walk m a g now T s)))]"
proof -
  from walk_shape_walk[of s m a g now T] obtain qs where
    qs: "requests (snd (walk m a g now T s)) = requests s @ qs"
        "length qs \<le> Suc (length number_list)"
        "map resource qs = take (length qs) (Lclog # map LclogSkip number_list)"
    unfolding walk_shape_def by blast
  have i: "issued s (snd (walk m a g now T s)) = qs"
    by (simp add: issued_def qs(1))
  have "map (\<lambda>q. offset (resource q)) qs = map offset (map resource qs)" by simp
  also have "\<dots> = map (\<lambda>k. 50 * k) [0..<length qs]"
    by (simp only: qs(3) offsets_of_prefix[OF qs(2)])
  finally show ?thesis
    using qs by (simp add: i length_number_list)
qed

theorem walk_offsets_witness:
  "map (\<lambda>q. offset (resource q))
     (issued fresh (snd (walk FullDump cli (resolve_globals cli []) noon gap_server fresh)))
   = [0, 50]"
proof -
  obtain rest where nl: "number_list = 50 # 100 # 150 # rest"
    using number_list_unfold by blast
  have "length (issued fresh (snd (walk FullDump cli (resolve_globals cli []) noon gap_server fresh)))
          = 2"
    by (simp add: issued_def walk_def gap_server_def resolve_globals_def truthy_def io_defs
        lc_defs input_defs nl)
  with walk_offsets[of FullDump cli "resolve_globals cli []" noon gap_server fresh]
  show ?thesis by (simp add: upt_conv_Cons)
qed

subsection \<open>What the walk writes\<close>

lemma files_writelines:
  "files s name = Some cs \<Longrightarrow> files (writelines name c s) name = Some (cs @ [c])"
  by (simp add: writelines_def)

lemma files_write_items:
  "files s name = Some cs \<Longrightarrow> files (write_items name its s) name = Some (cs @ entry_block its)"
proof -
  have "files s name = Some cs \<Longrightarrow>
        files (foldl (\<lambda>s' kv. writelines name (item_line kv) s') s its) name
          = Some (cs @ map item_line its)" for cs s
    by (induction its arbitrary: s cs) (simp_all add: files_writelines)
  then show "files s name = Some cs \<Longrightarrow> ?thesis"
    by (simp add: write_items_def entry_block_def files_writelines)
qed

lemma files_bump [simp]: "files (bump s) = files s"
  by (simp add: bump_def)

lemma files_close [simp]: "files (close s) = files s"
  by (simp add: close_def)

lemma files_start_file:
  "files (start_file name now s) name = Some [current_date_time now, nl @ nl]"
  by (simp add: start_file_def writelines_def open_w_def remove_quiet_def)

lemma http_get_Inr:
  "http_get a g T res vx vb s = Inr (r, s1) \<Longrightarrow>
   \<exists>q. r = T q \<and> requests s1 = requests s @ [q] \<and> files s1 = files s"
  by (auto simp: http_get_def split: sum.splits)

lemma for_members_files:
  assumes entry: "\<And>i s cs s'. files s name = Some cs \<Longrightarrow> f i s = (None, s') \<Longrightarrow>
                    files s' name = Some (cs @ E i)"
  shows "files s name = Some cs \<Longrightarrow> for_members f ms s = (None, s') \<Longrightarrow>
         files s' name = Some (cs @ concat (map E ms))"
proof (induction ms arbitrary: s cs)
  case Nil
  then show ?case by simp
next
  case (Cons i ms)
  obtain e s1 where f: "f i s = (e, s1)" by (cases "f i s")
  with Cons.prems(2) have e: "e = None" by (cases e) auto
  from entry[OF Cons.prems(1) f[unfolded e]] have s1: "files s1 name = Some (cs @ E i)" .
  from Cons.prems(2) f e have "for_members f ms s1 = (None, s')" by simp
  from Cons.IH[OF s1 this] show ?case by simp
qed

lemma lc_entry_files:
  "files s lc_logs_txt = Some cs \<Longrightarrow> lc_entry i s = (None, s') \<Longrightarrow>
   files s' lc_logs_txt = Some (cs @ sink_chunks FullDump a g i)"
  by (auto simp: lc_entry_def sink_chunks_def files_write_items split: sum.splits)

lemma scan_items_files:
  "files s name = Some cs \<Longrightarrow> scan_items name key test its rest s = (None, s') \<Longrightarrow>
   files s' name = Some (cs @ concat (replicate (hits key test rest) (entry_block its)))"
proof (induction rest arbitrary: s cs)
  case Nil
  then show ?case by (simp add: hits_def)
next
  case (Cons kv rest)
  show ?case
  proof (cases "fst kv = key")
    case False
    with Cons.prems have "scan_items name key test its rest s = (None, s')" by simp
    from Cons.IH[OF Cons.prems(1) this] False show ?thesis by (simp add: hits_def)
  next
    case True
    show ?thesis
    proof (cases "test (snd kv)")
      case (Inl e)
      with True Cons.prems(2) show ?thesis by simp
    next
      case (Inr hit)
      show ?thesis
      proof (cases hit)
        case False
        with True Inr Cons.prems have "scan_items name key test its rest s = (None, s')" by simp
        from Cons.IH[OF Cons.prems(1) this] True Inr False show ?thesis by (simp add: hits_def)
      next
        case hit: True
        have w: "files (write_items name its (bump s)) name = Some (cs @ entry_block its)"
          using Cons.prems(1) by (simp add: files_write_items)
        from True Inr hit Cons.prems(2)
        have "scan_items name key test its rest (write_items name its (bump s)) = (None, s')"
          by simp
        from Cons.IH[OF w this] True Inr hit show ?thesis
          by (simp add: hits_def)
      qed
    qed
  qed
qed

lemma scan_entry_files:
  "files s name = Some cs \<Longrightarrow> scan_entry name key test i s = (None, s') \<Longrightarrow>
   files s' name = Some (cs @ scan_chunks key test i)"
  by (auto simp: scan_entry_def scan_chunks_def scan_items_files split: sum.splits)

lemma category_entry_files:
  "files s category_entries_txt = Some cs \<Longrightarrow> category_entry c i s = (None, s') \<Longrightarrow>
   files s' category_entries_txt
     = Some (cs @ (if category_match c i = Inr True then [py_str i, nl @ nl] else []))"
  by (auto simp: category_entry_def files_writelines split: sum.splits if_splits)

lemma paged_loop_files:
  assumes ok: "page_ok name W C page"
  shows "files s name = Some cs \<Longrightarrow> paged_loop a g T page seqs s = (res, s') \<Longrightarrow>
         \<exists>qs. requests s' = requests s @ qs \<and>
              ((\<exists>out. res = Some out \<and> stopped out) \<or>
               files s' name = Some (cs @ concat (map (\<lambda>q. if W (T q) then C (T q) else []) qs)))"
proof (induction seqs arbitrary: s cs)
  case Nil
  then show ?case by simp
next
  case (Cons seq seqs)
  show ?case
  proof (cases "http_get a g T (LclogSkip seq) (verify_cert g) (verify_cert g) s")
    case (Inl e)
    with Cons.prems(2) show ?thesis by (auto simp: stopped_def)
  next
    case (Inr p)
    obtain r s1 where p: "p = (r, s1)" by (cases p)
    from http_get_Inr[OF Inr[unfolded p]] obtain q
      where q: "r = T q" "requests s1 = requests s @ [q]" "files s1 = files s" by blast
    have f1: "files s1 name = Some cs" using q(3) Cons.prems(1) by simp
    from ok[unfolded page_ok_def] f1
    have req: "requests (state_of (page r s1)) = requests s1"
      and spec: "(case page r s1 of
           Next s' \<Rightarrow> W r \<and> files s' name = Some (cs @ C r)
         | Break s' \<Rightarrow> \<not> W r \<and> files s' name = Some cs
         | Exit out s' \<Rightarrow> is_crash out \<or> out = NoEntries \<or> (\<not> W r \<and> files s' name = Some cs))"
      by blast+
    show ?thesis
    proof (cases "page r s1")
      case (Next s2)
      with spec have w: "W r" and f2: "files s2 name = Some (cs @ C r)" by simp_all
      from req Next q(2) have r2: "requests s2 = requests s @ [q]" by simp
      from Cons.prems(2) Inr p Next have "paged_loop a g T page seqs s2 = (res, s')" by simp
      from Cons.IH[OF f2 this] obtain qs where
        qs: "requests s' = requests s2 @ qs"
            "(\<exists>out. res = Some out \<and> stopped out) \<or>
             files s' name = Some ((cs @ C r) @ concat (map (\<lambda>q. if W (T q) then C (T q) else []) qs))"
        by blast
      have "requests s' = requests s @ (q # qs)" using qs(1) r2 by simp
      moreover have "(\<exists>out. res = Some out \<and> stopped out) \<or>
             files s' name = Some (cs @ concat (map (\<lambda>q. if W (T q) then C (T q) else []) (q # qs)))"
        using qs(2) w q(1) by auto
      ultimately show ?thesis by blast
    next
      case (Break s2)
      with spec have w: "\<not> W r" and f2: "files s2 name = Some cs" by simp_all
      from req Break q(2) have r2: "requests s2 = requests s @ [q]" by simp
      from Cons.prems(2) Inr p Break have "res = None" "s' = s2" by simp_all
      with w f2 r2 q(1) have "requests s' = requests s @ [q] \<and>
          files s' name = Some (cs @ concat (map (\<lambda>q. if W (T q) then C (T q) else []) [q]))"
        by simp
      then show ?thesis by blast
    next
      case (Exit out s2)
      from req Exit q(2) have r2: "requests s2 = requests s @ [q]" by simp
      from Cons.prems(2) Inr p Exit have res: "res = Some out" "s' = s2" by simp_all
      from spec Exit have "stopped out \<or> (\<not> W r \<and> files s2 name = Some cs)"
        by (auto simp: stopped_def)
      with res r2 q(1) have "requests s' = requests s @ [q] \<and>
          ((\<exists>out. res = Some out \<and> stopped out) \<or>
           files s' name = Some (cs @ concat (map (\<lambda>q. if W (T q) then C (T q) else []) [q])))"
        by auto
      then show ?thesis by blast
    qed
  qed
qed

lemma paged_written_other: "m \<noteq> Category \<Longrightarrow> paged_written m r = paged_written FullDump r"
  by (simp add: paged_written_def)

lemma page_ok_lc: "page_ok lc_logs_txt (paged_written FullDump) (page_chunks FullDump a g) lc_page"
  unfolding page_ok_def
proof (intro allI impI conjI)
  fix r and s :: state and cs
  assume f: "files s lc_logs_txt = Some cs"
  show "requests (state_of (lc_page r s)) = requests s" by (rule requests_lc_page)
  have fm: "files s' lc_logs_txt = Some (cs @ concat (map (sink_chunks FullDump a g) ms))"
    if fmr: "for_members lc_entry ms s = (None, s')" for ms s'
  proof (rule for_members_files[where f = lc_entry and name = lc_logs_txt
        and E = "sink_chunks FullDump a g", OF _ f fmr])
    show "files s lc_logs_txt = Some cs \<Longrightarrow> lc_entry i s = (None, s') \<Longrightarrow>
          files s' lc_logs_txt = Some (cs @ sink_chunks FullDump a g i)" for i s cs s'
      by (rule lc_entry_files)
  qed
  show "case lc_page r s of
          Next s' \<Rightarrow> paged_written FullDump r \<and> files s' lc_logs_txt = Some (cs @ page_chunks FullDump a g r)
        | Break s' \<Rightarrow> \<not> paged_written FullDump r \<and> files s' lc_logs_txt = Some cs
        | Exit out s' \<Rightarrow> is_crash out \<or> out = NoEntries \<or>
            (\<not> paged_written FullDump r \<and> files s' lc_logs_txt = Some cs)"
  proof (cases "status_code r = 200")
    case False
    with f show ?thesis
      by (auto simp: lc_page_def paged_written_def split: sum.splits)
  next
    case True
    with f fm show ?thesis
      by (auto simp: lc_page_def paged_written_def page_chunks_def entries_def
          split: sum.splits prod.splits option.splits)
  qed
qed

lemma page_ok_scan:
  "page_ok name (paged_written FullDump)
     (\<lambda>r. concat (map (scan_chunks key test) (entries r)))
     (scan_page name (scan_entry name key test))"
  unfolding page_ok_def
proof (intro allI impI conjI)
  fix r and s :: state and cs
  assume f: "files s name = Some cs"
  show "requests (state_of (scan_page name (scan_entry name key test) r s)) = requests s"
    by (rule requests_scan_page) (rule requests_scan_entry)
  have fm: "files s' name = Some (cs @ concat (map (scan_chunks key test) ms))"
    if fmr: "for_members (scan_entry name key test) ms s = (None, s')" for ms s'
  proof (rule for_members_files[where f = "scan_entry name key test" and name = name
        and E = "scan_chunks key test", OF _ f fmr])
    show "files s name = Some cs \<Longrightarrow> scan_entry name key test i s = (None, s') \<Longrightarrow>
          files s' name = Some (cs @ scan_chunks key test i)" for i s cs s'
      by (rule scan_entry_files)
  qed
  show "case scan_page name (scan_entry name key test) r s of
          Next s' \<Rightarrow> paged_written FullDump r \<and>
             files s' name = Some (cs @ concat (map (scan_chunks key test) (entries r)))
        | Break s' \<Rightarrow> \<not> paged_written FullDump r \<and> files s' name = Some cs
        | Exit out s' \<Rightarrow> is_crash out \<or> out = NoEntries \<or>
            (\<not> paged_written FullDump r \<and> files s' name = Some cs)"
  proof (cases "status_code r = 200")
    case False
    with f show ?thesis
      by (auto simp: scan_page_def paged_written_def split: sum.splits)
  next
    case True
    with f fm show ?thesis
      by (auto simp: scan_page_def paged_written_def entries_def
          split: sum.splits prod.splits option.splits)
  qed
qed

lemma page_ok_category:
  "page_ok category_entries_txt (paged_written Category)
     (\<lambda>r. concat (map (\<lambda>i. if category_match c i = Inr True then [py_str i, nl @ nl] else [])
                       (entries r)))
     (category_page c)"
  unfolding page_ok_def
proof (intro allI impI conjI)
  fix r and s :: state and cs
  assume f: "files s category_entries_txt = Some cs"
  show "requests (state_of (category_page c r s)) = requests s"
    by (rule requests_category_page)
  have fm: "files s' category_entries_txt
              = Some (cs @ concat (map (\<lambda>i. if category_match c i = Inr True
                                              then [py_str i, nl @ nl] else []) ms))"
    if fmr: "for_members (category_entry c) ms s = (None, s')" for ms s'
  proof (rule for_members_files[where f = "category_entry c" and name = category_entries_txt
        and E = "\<lambda>i. if category_match c i = Inr True then [py_str i, nl @ nl] else []",
        OF _ f fmr])
    show "files s category_entries_txt = Some cs \<Longrightarrow> category_entry c i s = (None, s') \<Longrightarrow>
          files s' category_entries_txt
            = Some (cs @ (if category_match c i = Inr True then [py_str i, nl @ nl] else []))"
      for i s cs s'
      by (rule category_entry_files)
  qed
  show "case category_page c r s of
          Next s' \<Rightarrow> paged_written Category r \<and>
             files s' category_entries_txt
               = Some (cs @ concat (map (\<lambda>i. if category_match c i = Inr True
                                               then [py_str i, nl @ nl] else []) (entries r)))
        | Break s' \<Rightarrow> \<not> paged_written Category r \<and> files s' category_entries_txt = Some cs
        | Exit out s' \<Rightarrow> is_crash out \<or> out = NoEntries \<or>
            (\<not> paged_written Category r \<and> files s' category_entries_txt = Some cs)"
  proof (cases "status_code r = 200")
    case False
    with f show ?thesis
      by (auto simp: category_page_def paged_written_def split: sum.splits)
  next
    case True
    with f fm show ?thesis
      by (auto simp: category_page_def paged_written_def entries_def
          split: sum.splits prod.splits option.splits)
  qed
qed

lemma files_tail:
  assumes ok: "page_ok name W C page"
    and entry: "\<And>i s cs s'. files s name = Some cs \<Longrightarrow> f i s = (None, s') \<Longrightarrow>
                  files s' name = Some (cs @ E i)"
    and ereq: "\<And>i s. requests (snd (f i s)) = requests s"
    and fin: "\<And>s. fst (fin s) = NoEntries \<or> files (snd (fin s)) name = files s name"
      "\<And>s. requests (snd (fin s)) = requests s"
    and f2: "files s2 name = Some cs"
    and res: "(case for_members f ms s2 of
                 (Some e, s3) \<Rightarrow> (Crash e, s3)
               | (None, s3) \<Rightarrow>
                   (case paged_loop a g T page number_list s3 of
                      (Some out, s4) \<Rightarrow> (out, s4)
                    | (None, s4) \<Rightarrow> fin s4)) = (out, s')"
  shows "\<exists>qs. requests s' = requests s2 @ qs \<and>
              (stopped out \<or>
               files s' name
                 = Some (cs @ concat (map E ms) @
                         concat (map (\<lambda>q. if W (T q) then C (T q) else []) qs)))"
proof -
  obtain e s3 where fm: "for_members f ms s2 = (e, s3)" by (cases "for_members f ms s2")
  have r3: "requests s3 = requests s2"
    using requests_for_members[of f ms s2, OF ereq] fm by simp
  show ?thesis
  proof (cases e)
    case (Some err)
    with fm res r3 have "requests s' = requests s2 @ []" "stopped out"
      by (auto simp: stopped_def)
    then show ?thesis by blast
  next
    case None
    have f3: "files s3 name = Some (cs @ concat (map E ms))"
      by (rule for_members_files[where f = f and E = E, OF entry f2 fm[unfolded None]])
    obtain r s4 where pl: "paged_loop a g T page number_list s3 = (r, s4)"
      by (cases "paged_loop a g T page number_list s3")
    from paged_loop_files[OF ok f3 pl] obtain qs where
      qs: "requests s4 = requests s3 @ qs"
          "(\<exists>out. r = Some out \<and> stopped out) \<or>
           files s4 name = Some ((cs @ concat (map E ms)) @
                                 concat (map (\<lambda>q. if W (T q) then C (T q) else []) qs))"
      by blast
    show ?thesis
    proof (cases r)
      case (Some o')
      with fm None pl res have eq: "out = o'" "s' = s4" by simp_all
      with qs Some r3 have "requests s' = requests s2 @ qs \<and>
              (stopped out \<or>
               files s' name
                 = Some (cs @ concat (map E ms) @
                         concat (map (\<lambda>q. if W (T q) then C (T q) else []) qs)))"
        by auto
      then show ?thesis by blast
    next
      case rn: None
      with fm None pl res have eq: "fin s4 = (out, s')" by simp
      from rn qs(2) have f4: "files s4 name = Some ((cs @ concat (map E ms)) @
                                 concat (map (\<lambda>q. if W (T q) then C (T q) else []) qs))"
        by simp
      from fin(1)[of s4] eq have "out = NoEntries \<or> files s' name = files s4 name" by simp
      moreover from fin(2)[of s4] eq have "requests s' = requests s4" by simp
      ultimately have "requests s' = requests s2 @ qs \<and>
              (stopped out \<or>
               files s' name
                 = Some (cs @ concat (map E ms) @
                         concat (map (\<lambda>q. if W (T q) then C (T q) else []) qs)))"
        using qs(1) r3 f4 by (auto simp: stopped_def)
      then show ?thesis by blast
    qed
  qed
qed

lemma issued_append: "requests s' = requests s @ qs \<Longrightarrow> issued s s' = qs"
  by (simp add: issued_def)

lemma files_get_LC_logs:
  assumes run: "get_LC_logs a g now T s = (out, s')"
  shows "stopped out \<or>
         files s' lc_logs_txt = Some (expected_output FullDump a g now T (issued s s'))"
proof (cases "http_get a g T Lclog (verify_cert g) (verify_cert g) (start_file lc_logs_txt now s)")
  case (Inl e)
  with run show ?thesis by (auto simp: get_LC_logs_def stopped_def)
next
  case (Inr p)
  obtain r s2 where p: "p = (r, s2)" by (cases p)
  from http_get_Inr[OF Inr[unfolded p]] obtain q
    where q: "r = T q" "requests s2 = requests s @ [q]"
      "files s2 = files (start_file lc_logs_txt now s)" by auto
  have f2: "files s2 lc_logs_txt = Some [current_date_time now, nl @ nl]"
    using q(3) by (simp add: files_start_file)
  show ?thesis
  proof (cases "status_code r \<noteq> 200")
    case True
    with run Inr p have "out = GetFailed (status_code r) (body r)" "s' = s2"
      by (simp_all add: get_LC_logs_def)
    with True f2 q show ?thesis
      by (simp add: issued_append[OF q(2)] expected_output_def first_written_def)
  next
    case False
    show ?thesis
    proof (cases "members_of (body r)")
      case (Inl e)
      with run Inr p False show ?thesis by (auto simp: get_LC_logs_def stopped_def)
    next
      case ms: (Inr ms)
      from run Inr p False ms
      have res: "(case for_members lc_entry ms s2 of
                    (Some e, s3) \<Rightarrow> (Crash e, s3)
                  | (None, s3) \<Rightarrow>
                      (case paged_loop a g T lc_page number_list s3 of
                         (Some out, s4) \<Rightarrow> (out, s4)
                       | (None, s4) \<Rightarrow> (Done, close s4))) = (out, s')"
        by (simp add: get_LC_logs_def)
      have "\<exists>qs. requests s' = requests s2 @ qs \<and>
              (stopped out \<or>
               files s' lc_logs_txt
                 = Some ([current_date_time now, nl @ nl] @
                         concat (map (sink_chunks FullDump a g) ms) @
                         concat (map (\<lambda>q. if paged_written FullDump (T q)
                                            then page_chunks FullDump a g (T q) else []) qs)))"
      proof (rule files_tail[where f = lc_entry and fin = "\<lambda>s. (Done, close s)",
            OF page_ok_lc _ requests_lc_entry _ _ f2 res])
        show "files s lc_logs_txt = Some cs \<Longrightarrow> lc_entry i s = (None, s') \<Longrightarrow>
              files s' lc_logs_txt = Some (cs @ sink_chunks FullDump a g i)" for i s cs s'
          by (rule lc_entry_files)
      qed simp_all
      then obtain qs where qs: "requests s' = requests s2 @ qs"
        "stopped out \<or>
               files s' lc_logs_txt
                 = Some ([current_date_time now, nl @ nl] @
                         concat (map (sink_chunks FullDump a g) ms) @
                         concat (map (\<lambda>q. if paged_written FullDump (T q)
                                            then page_chunks FullDump a g (T q) else []) qs))"
        by blast
      have i: "issued s s' = q # qs" using qs(1) q(2) by (simp add: issued_def)
      have pc: "page_chunks FullDump a g (T q) = concat (map (sink_chunks FullDump a g) ms)"
        using ms q(1) by (simp add: page_chunks_def entries_def)
      from qs(2) False q(1) show ?thesis
        by (auto simp: i expected_output_def first_written_def pc)
    qed
  qed
qed

lemma files_scan:
  assumes run: "scan name (scan_entry name key test) a g now T s = (out, s')"
  shows "stopped out \<or>
         (\<exists>q qs. issued s s' = q # qs \<and>
            files s' name
              = Some ([current_date_time now, nl @ nl] @
                      concat (map (scan_chunks key test) (entries (T q))) @
                      concat (map (\<lambda>q. if paged_written FullDump (T q)
                                         then concat (map (scan_chunks key test) (entries (T q)))
                                         else []) qs)))"
proof (cases "http_get a g T Lclog (verify_cert g) (verify_cert g)
                (start_file name now (s\<lparr>count := 0\<rparr>))")
  case (Inl e)
  with run show ?thesis by (auto simp: scan_def stopped_def)
next
  case (Inr p)
  obtain r s2 where p: "p = (r, s2)" by (cases p)
  from http_get_Inr[OF Inr[unfolded p]] obtain q
    where q: "r = T q" "requests s2 = requests (start_file name now (s\<lparr>count := 0\<rparr>)) @ [q]"
      "files s2 = files (start_file name now (s\<lparr>count := 0\<rparr>))" by auto
  have r2: "requests s2 = requests s @ [q]" using q(2) by simp
  have f2: "files s2 name = Some [current_date_time now, nl @ nl]"
    using q(3) by (simp add: files_start_file)
  show ?thesis
  proof (cases "members_of (body r)")
    case (Inl e)
    with run Inr p show ?thesis by (auto simp: scan_def stopped_def)
  next
    case ms: (Inr ms)
    from run Inr p ms
    have res: "(case for_members (scan_entry name key test) ms s2 of
                  (Some e, s3) \<Rightarrow> (Crash e, s3)
                | (None, s3) \<Rightarrow>
                    (case paged_loop a g T (scan_page name (scan_entry name key test))
                            number_list s3 of
                       (Some out, s4) \<Rightarrow> (out, s4)
                     | (None, s4) \<Rightarrow> scan_finish name s4)) = (out, s')"
      by (simp add: scan_def)
    have "\<exists>qs. requests s' = requests s2 @ qs \<and>
            (stopped out \<or>
             files s' name
               = Some ([current_date_time now, nl @ nl] @
                       concat (map (scan_chunks key test) ms) @
                       concat (map (\<lambda>q. if paged_written FullDump (T q)
                                          then concat (map (scan_chunks key test) (entries (T q)))
                                          else []) qs)))"
    proof (rule files_tail[where f = "scan_entry name key test" and fin = "scan_finish name",
          OF page_ok_scan _ requests_scan_entry _ _ f2 res])
      show "files s name = Some cs \<Longrightarrow> scan_entry name key test i s = (None, s') \<Longrightarrow>
            files s' name = Some (cs @ scan_chunks key test i)" for i s cs s'
        by (rule scan_entry_files)
    qed (simp_all add: scan_finish_def)
    then obtain qs where qs: "requests s' = requests s2 @ qs"
      "stopped out \<or>
             files s' name
               = Some ([current_date_time now, nl @ nl] @
                       concat (map (scan_chunks key test) ms) @
                       concat (map (\<lambda>q. if paged_written FullDump (T q)
                                          then concat (map (scan_chunks key test) (entries (T q)))
                                          else []) qs))"
      by blast
    have i: "issued s s' = q # qs" using qs(1) r2 by (simp add: issued_def)
    have "entries (T q) = ms" using ms q(1) by (simp add: entries_def)
    with qs(2) i show ?thesis by auto
  qed
qed

lemma files_get_category_entries:
  assumes run: "get_category_entries a g now T s = (out, s')"
  shows "stopped out \<or> out = InvalidArgument \<or>
         files s' category_entries_txt = Some (expected_output Category a g now T (issued s s'))"
proof (cases "arg_get_category a")
  case None
  with run show ?thesis by (auto simp: get_category_entries_def stopped_def)
next
  case (Some c)
  show ?thesis
  proof (cases "lower c \<in> set categories")
    case False
    with Some run show ?thesis by (auto simp: get_category_entries_def)
  next
    case True
    show ?thesis
    proof (cases "http_get a g T Lclog (verify_cert g) (verify_cert g)
                    (start_file category_entries_txt now (s\<lparr>count := 0\<rparr>))")
      case (Inl e)
      with Some True run show ?thesis by (auto simp: get_category_entries_def stopped_def)
    next
      case (Inr p)
      obtain r s2 where p: "p = (r, s2)" by (cases p)
      from http_get_Inr[OF Inr[unfolded p]] obtain q
        where q: "r = T q"
          "requests s2 = requests (start_file category_entries_txt now (s\<lparr>count := 0\<rparr>)) @ [q]"
          "files s2 = files (start_file category_entries_txt now (s\<lparr>count := 0\<rparr>))" by auto
      have r2: "requests s2 = requests s @ [q]" using q(2) by simp
      have f2: "files s2 category_entries_txt = Some [current_date_time now, nl @ nl]"
        using q(3) by (simp add: files_start_file)
      show ?thesis
      proof (cases "members_of (body r)")
        case (Inl e)
        with Some True run Inr p show ?thesis
          by (auto simp: get_category_entries_def stopped_def)
      next
        case ms: (Inr ms)
        from run Some True Inr p ms
        have res: "(case for_members (category_entry c) ms s2 of
                      (Some e, s3) \<Rightarrow> (Crash e, s3)
                    | (None, s3) \<Rightarrow>
                        (case paged_loop a g T (category_page c) number_list s3 of
                           (Some out, s4) \<Rightarrow> (out, s4)
                         | (None, s4) \<Rightarrow> scan_finish category_entries_txt s4)) = (out, s')"
          by (simp add: get_category_entries_def)
        have "\<exists>qs. requests s' = requests s2 @ qs \<and>
                (stopped out \<or>
                 files s' category_entries_txt
                   = Some ([current_date_time now, nl @ nl] @
                           concat (map (\<lambda>i. if category_match c i = Inr True
                                             then [py_str i, nl @ nl] else []) ms) @
                           concat (map (\<lambda>q. if paged_written Category (T q)
                                 then concat (map (\<lambda>i. if category_match c i = Inr True
                                                        then [py_str i, nl @ nl] else [])
                                                  (entries (T q)))
                                 else []) qs)))"
        proof (rule files_tail[where f = "category_entry c"
              and fin = "scan_finish category_entries_txt",
              OF page_ok_category _ requests_category_entry _ _ f2 res])
          show "files s category_entries_txt = Some cs \<Longrightarrow> category_entry c i s = (None, s') \<Longrightarrow>
                files s' category_entries_txt
                  = Some (cs @ (if category_match c i = Inr True then [py_str i, nl @ nl] else []))"
            for i s cs s'
            by (rule category_entry_files)
        qed (simp_all add: scan_finish_def)
        then obtain qs where qs: "requests s' = requests s2 @ qs"
          "stopped out \<or>
                 files s' category_entries_txt
                   = Some ([current_date_time now, nl @ nl] @
                           concat (map (\<lambda>i. if category_match c i = Inr True
                                             then [py_str i, nl @ nl] else []) ms) @
                           concat (map (\<lambda>q. if paged_written Category (T q)
                                 then concat (map (\<lambda>i. if category_match c i = Inr True
                                                        then [py_str i, nl @ nl] else [])
                                                  (entries (T q)))
                                 else []) qs))"
          by blast
        have i: "issued s s' = q # qs" using qs(1) r2 by (simp add: issued_def)
        have e: "entries (T q) = ms" using ms q(1) by (simp add: entries_def)
        have sc: "sink_chunks Category a g
                    = (\<lambda>i. if category_match c i = Inr True then [py_str i, nl @ nl] else [])"
          using Some by (simp add: sink_chunks_def fun_eq_iff)
        have pc: "page_chunks Category a g r'
                    = concat (map (\<lambda>i. if category_match c i = Inr True
                                         then [py_str i, nl @ nl] else []) (entries r'))" for r'
          by (simp add: page_chunks_def sc)
        have "expected_output Category a g now T (q # qs)
                = [current_date_time now, nl @ nl] @
                           concat (map (\<lambda>i. if category_match c i = Inr True
                                             then [py_str i, nl @ nl] else []) ms) @
                           concat (map (\<lambda>q. if paged_written Category (T q)
                                 then concat (map (\<lambda>i. if category_match c i = Inr True
                                                        then [py_str i, nl @ nl] else [])
                                                  (entries (T q)))
                                 else []) qs)"
          by (simp add: expected_output_def first_written_def pc e cong: if_cong)
        with qs(2) i show ?thesis by auto
      qed
    qed
  qed
qed

text \<open>
  The output file of a walk. In the full dump, the fail-keyword scan and the message-id
  scan every entry selected contributes one line \<open>key: value\<close> per item of the entry and
  an empty line; in the category mode it contributes the text of \<open>str(entry)\<close> and two
  line ends. After a walk that ends neither in an exception nor with the report of an
  invalid argument and that does not remove its file, the file holds the time stamp
  followed by exactly these chunks, for the pages in the order requested and the entries
  in the order of the page.
\<close>

lemma sink_output:
  assumes "\<not> is_crash (fst (walk m a g now T s))"
    and "fst (walk m a g now T s) \<noteq> InvalidArgument"
    and "fst (walk m a g now T s) \<noteq> NoEntries"
  shows "files (snd (walk m a g now T s)) (output_file m)
           = Some (expected_output m a g now T (issued s (snd (walk m a g now T s))))"
proof -
  obtain out s' where w: "walk m a g now T s = (out, s')" by (cases "walk m a g now T s")
  from assms w have ns: "\<not> stopped out" "out \<noteq> InvalidArgument"
    by (simp_all add: stopped_def)
  have "files s' (output_file m) = Some (expected_output m a g now T (issued s s'))"
  proof (cases m)
    case FullDump
    with w files_get_LC_logs[of a g now T s out s'] ns show ?thesis
      by (simp add: walk_def output_file_def)
  next
    case FailKeyword
    with w have "scan lc_log_failures_txt (scan_entry lc_log_failures_txt ''Message'' fail_keyword)
                   a g now T s = (out, s')"
      by (simp add: walk_def get_LC_log_failures_def)
    from files_scan[OF this] ns(1) obtain q qs where
      f: "issued s s' = q # qs"
         "files s' lc_log_failures_txt
            = Some ([current_date_time now, nl @ nl] @
                    concat (map (scan_chunks ''Message'' fail_keyword) (entries (T q))) @
                    concat (map (\<lambda>q. if paged_written FullDump (T q)
                                       then concat (map (scan_chunks ''Message'' fail_keyword)
                                                        (entries (T q)))
                                       else []) qs))"
      by blast
    have sc: "sink_chunks FailKeyword a g = scan_chunks ''Message'' fail_keyword"
      by (simp add: fun_eq_iff sink_chunks_def)
    have "expected_output FailKeyword a g now T (q # qs)
            = [current_date_time now, nl @ nl] @
                    concat (map (scan_chunks ''Message'' fail_keyword) (entries (T q))) @
                    concat (map (\<lambda>q. if paged_written FullDump (T q)
                                       then concat (map (scan_chunks ''Message'' fail_keyword)
                                                        (entries (T q)))
                                       else []) qs)"
      by (simp add: expected_output_def first_written_def page_chunks_def sc
          paged_written_other[of FailKeyword] cong: if_cong)
    with f FailKeyword show ?thesis by (simp add: output_file_def)
  next
    case MessageId
    with w have "scan message_id_entries_txt
                   (scan_entry message_id_entries_txt ''MessageId'' (message_id_match a g))
                   a g now T s = (out, s')"
      by (simp add: walk_def get_message_id_def)
    from files_scan[OF this] ns(1) obtain q qs where
      f: "issued s s' = q # qs"
         "files s' message_id_entries_txt
            = Some ([current_date_time now, nl @ nl] @
                    concat (map (scan_chunks ''MessageId'' (message_id_match a g)) (entries (T q))) @
                    concat (map (\<lambda>q. if paged_written FullDump (T q)
                                       then concat (map (scan_chunks ''MessageId''
                                                           (message_id_match a g))
                                                        (entries (T q)))
                                       else []) qs))"
      by blast
    have sc: "sink_chunks MessageId a g = scan_chunks ''MessageId'' (message_id_match a g)"
      by (simp add: fun_eq_iff sink_chunks_def)
    have "expected_output MessageId a g now T (q # qs)
            = [current_date_time now, nl @ nl] @
                    concat (map (scan_chunks ''MessageId'' (message_id_match a g)) (entries (T q))) @
                    concat (map (\<lambda>q. if paged_written FullDump (T q)
                                       then concat (map (scan_chunks ''MessageId''
                                                           (message_id_match a g))
                                                        (entries (T q)))
                                       else []) qs)"
      by (simp add: expected_output_def first_written_def page_chunks_def sc
          paged_written_other[of MessageId] cong: if_cong)
    with f MessageId show ?thesis by (simp add: output_file_def)
  next
    case Category
    with w files_get_category_entries[of a g now T s out s'] ns show ?thesis
      by (simp add: walk_def output_file_def)
  qed
  with w show ?thesis by simp
qed

lemma sink_output_example:
  "files (snd (walk FailKeyword cli (resolve_globals cli []) noon internal_error_server fresh))
     ''lc_log_failures.txt''
     = Some ([current_date_time noon, nl @ nl] @ map item_line entry_unable_items @ [nl])
   \<and> files (snd (walk Category cli_configuration (resolve_globals cli []) noon internal_error_server
                   fresh)) ''category_entries.txt''
     = Some [current_date_time noon, nl @ nl, py_str entry_unable, nl @ nl]"
proof -
  obtain rest where nl: "number_list = 50 # 100 # 150 # rest"
    using number_list_unfold by blast
  let ?g = "resolve_globals cli []"
  let ?q = "\<lambda>r. mk_request ?g (BasicAuth (Some ''root'') ''calvin'') r False False"
  have f: "fst (walk FailKeyword cli ?g noon internal_error_server fresh) = EndOfLog
        \<and> issued fresh (snd (walk FailKeyword cli ?g noon internal_error_server fresh))
            = [?q Lclog, ?q (LclogSkip 50)]"
    by (simp add: issued_def walk_def internal_error_server_def resolve_globals_def truthy_def
        io_defs scan_defs input_defs nl)
  have c: "fst (walk Category cli_configuration ?g noon internal_error_server fresh) = EndOfLog
        \<and> issued fresh (snd (walk Category cli_configuration ?g noon internal_error_server fresh))
            = [?q Lclog, ?q (LclogSkip 50)]"
    by (simp add: issued_def walk_def cli_configuration_def internal_error_server_def
        resolve_globals_def truthy_def io_defs category_defs input_defs nl)
  have "files (snd (walk FailKeyword cli ?g noon internal_error_server fresh)) ''lc_log_failures.txt''
     = Some ([current_date_time noon, nl @ nl] @ map item_line entry_unable_items @ [nl])"
    using f sink_output[of FailKeyword cli ?g noon internal_error_server fresh]
    by (simp add: output_file_def lc_log_failures_txt_def expected_output_def first_written_def
        paged_written_def page_chunks_def entries_def sink_chunks_def scan_chunks_def hits_def
        entry_block_def fail_keyword_def members_of_def internal_error_server_def server_def
        mk_request_def ok_page_def error_response_def entry_unable_def entry_unable_items_def
        lower_def lower_char_def)
  moreover have "files (snd (walk Category cli_configuration ?g noon internal_error_server fresh))
       ''category_entries.txt''
     = Some [current_date_time noon, nl @ nl, py_str entry_unable, nl @ nl]"
    using c sink_output[of Category cli_configuration ?g noon internal_error_server fresh]
    by (simp add: output_file_def category_entries_txt_def expected_output_def first_written_def
        paged_written_def page_chunks_def entries_def sink_chunks_def category_match_def
        members_of_def internal_error_server_def server_def cli_configuration_def cli_def
        mk_request_def ok_page_def error_response_def entry_unable_def
        lower_def lower_char_def)
  ultimately show ?thesis by simp
qed

subsection \<open>The text written for a selected entry\<close>

text \<open>
  Claim C8. In every mode the sink is to write, for every entry selected, one line
  \<open>key: value\<close> per item of the entry, followed by an empty line. \<open>get_LC_logs\<close>,
  \<open>get_LC_log_failures\<close> and \<open>get_message_id\<close> write the entry item by item in this
  form; \<open>get_category_entries\<close> writes \<open>str(i)\<close>, the text of the dictionary as a whole,
  followed by two line ends. On \<open>gap_server\<close> the full dump writes the three lines of the
  first entry and an empty line. On \<open>internal_error_server\<close> the only entry is selected
  by the fail keywords, by the message id \<open>WRK0001\<close> and by the category
  \<open>configuration\<close>: the two scans write its three lines and an empty line, the category
  run writes the text of \<open>str(i)\<close>, which is not the text of these lines.
\<close>

theorem category_sink_writes_str:
  "files (snd full_dump_run_gap) ''lc_logs.txt''
       = Some ([current_date_time noon, nl @ nl] @ map item_line entry_ok_items @ [nl])
   \<and> files (snd fail_run_internal) ''lc_log_failures.txt''
       = Some ([current_date_time noon, nl @ nl] @ map item_line entry_unable_items @ [nl])
   \<and> files (snd message_id_run_internal) ''message_id_entries.txt''
       = Some ([current_date_time noon, nl @ nl] @ map item_line entry_unable_items @ [nl])
   \<and> count (snd category_run_internal) = 1
   \<and> files (snd category_run_internal) ''category_entries.txt''
       = Some [current_date_time noon, nl @ nl, py_str entry_unable, nl @ nl]
   \<and> py_str entry_unable @ nl @ nl \<noteq> concat (map item_line entry_unable_items @ [nl])"
proof -
  obtain rest where nl: "number_list = 50 # 100 # 150 # rest"
    using number_list_unfold by blast
  have full: "files (snd full_dump_run_gap) ''lc_logs.txt''
       = Some ([current_date_time noon, nl @ nl] @ map item_line entry_ok_items @ [nl])"
    by (simp add: full_dump_run_gap_def gap_server_def entry_ok_items_def main_defs io_defs
        lc_defs input_defs nl)
  have fail: "files (snd fail_run_internal) ''lc_log_failures.txt''
       = Some ([current_date_time noon, nl @ nl] @ map item_line entry_unable_items @ [nl])"
    by (simp add: fail_run_internal_def internal_error_server_def entry_unable_items_def
        main_defs io_defs scan_defs input_defs nl)
  have message_id: "files (snd message_id_run_internal) ''message_id_entries.txt''
       = Some ([current_date_time noon, nl @ nl] @ map item_line entry_unable_items @ [nl])"
    by (simp add: message_id_run_internal_def internal_error_server_def entry_unable_items_def
        main_defs io_defs scan_defs input_defs nl)
  have category: "count (snd category_run_internal) = 1
     \<and> files (snd category_run_internal) ''category_entries.txt''
       = Some [current_date_time noon, nl @ nl, py_str entry_unable, nl @ nl]"
    by (simp add: category_run_internal_def internal_error_server_def main_defs io_defs
        category_defs input_defs nl)
  have differ: "py_str entry_unable @ nl @ nl \<noteq> concat (map item_line entry_unable_items @ [nl])"
    by (simp add: py_str_def entry_unable_def entry_unable_items_def item_line_def)
  from full fail message_id category differ show ?thesis by simp
qed

end
